theory Spec2Isabelle
  imports Complex_Main
begin

section \<open>The decision tree of Workshops/Workshop8.ipynb\<close>

text \<open>
  The notebook's class \<^verbatim>\<open>CustomDecisionTree\<close> is embedded function by function.
  NumPy integer arrays are modelled by \<open>int list\<close>, a two-dimensional array by its rows
  together with its column count, and every exception the notebook's code can raise by a
  value of \<open>error\<close>. A floating-point number is NaN, one of the two infinities or a
  finite value, and the operations follow IEEE 754 on the special values; on finite
  values they compute exactly, so the rounding of binary64 is not part of the model.
\<close>

subsection \<open>Data\<close>

text \<open>
  The exceptions of the Python code. \<open>NotFitted\<close> is the condition the specification
  names for predicting without a tree; no function below produces it.
\<close>

datatype error = ValueError | IndexError | TypeError | ZeroDivisionError | NotFitted

text \<open>A 2-d \<^verbatim>\<open>ndarray\<close>: \<^verbatim>\<open>X.shape\<close> is \<open>(length (rows X), ncols X)\<close>.\<close>

record 'a matrix =
  rows :: "'a list list"
  ncols :: nat

text \<open>
  The tree is a nested dict: \<^verbatim>\<open>{'class': c}\<close> is a leaf, a dict with the keys
  \<^verbatim>\<open>feature_idx\<close>, \<^verbatim>\<open>threshold\<close>, \<^verbatim>\<open>left_tree\<close>, \<^verbatim>\<open>right_tree\<close> an inner node.
\<close>

datatype 'a tree = Leaf int | Internal nat 'a "'a tree" "'a tree"

text \<open>The dict \<^verbatim>\<open>best_split\<close>.\<close>

record 'a split =
  feature_idx :: nat
  threshold :: 'a
  left_y :: "int list"
  right_y :: "int list"

text \<open>
  Floating-point values (\<^verbatim>\<open>best_info_gain\<close> starts at \<^verbatim>\<open>-float('inf')\<close>) and the
  operations the code applies to them. Signed zeros are not distinguished.
\<close>

datatype fval = NaN | NegInf | PosInf | Fin real

fun fneg :: "fval \<Rightarrow> fval" where
  "fneg NaN = NaN"
| "fneg NegInf = PosInf"
| "fneg PosInf = NegInf"
| "fneg (Fin a) = Fin (- a)"

fun fadd :: "fval \<Rightarrow> fval \<Rightarrow> fval" where
  "fadd (Fin a) (Fin b) = Fin (a + b)"
| "fadd NaN v = NaN"
| "fadd v NaN = NaN"
| "fadd PosInf NegInf = NaN"
| "fadd NegInf PosInf = NaN"
| "fadd PosInf v = PosInf"
| "fadd v PosInf = PosInf"
| "fadd NegInf v = NegInf"
| "fadd v NegInf = NegInf"

definition fsub :: "fval \<Rightarrow> fval \<Rightarrow> fval" where
  "fsub a b = fadd a (fneg b)"

fun fmul :: "fval \<Rightarrow> fval \<Rightarrow> fval" where
  "fmul (Fin a) (Fin b) = Fin (a * b)"
| "fmul NaN v = NaN"
| "fmul v NaN = NaN"
| "fmul (Fin a) v = (if a = 0 then NaN else if 0 < a then v else fneg v)"
| "fmul v (Fin b) = (if b = 0 then NaN else if 0 < b then v else fneg v)"
| "fmul PosInf v = v"
| "fmul NegInf v = fneg v"

text \<open>The quotient of two finite numbers, as NumPy's true division computes it.\<close>

definition fdiv :: "real \<Rightarrow> real \<Rightarrow> fval" where
  "fdiv a b =
     (if b = 0 then (if a = 0 then NaN else if 0 < a then PosInf else NegInf)
      else Fin (a / b))"

text \<open>\<^verbatim>\<open>np.log2\<close>: minus infinity at 0, NaN below 0.\<close>

fun flog2 :: "fval \<Rightarrow> fval" where
  "flog2 NaN = NaN"
| "flog2 NegInf = NaN"
| "flog2 PosInf = PosInf"
| "flog2 (Fin a) = (if 0 < a then Fin (log 2 a) else if a = 0 then NegInf else NaN)"

text \<open>\<^verbatim>\<open>np.sum\<close>; the sum of the empty array is 0.\<close>

definition fsum :: "fval list \<Rightarrow> fval" where
  "fsum vs = foldr fadd vs (Fin 0)"

text \<open>The comparison \<^verbatim>\<open>a > b\<close>: false as soon as one side is NaN.\<close>

fun gain_gt :: "fval \<Rightarrow> fval \<Rightarrow> bool" where
  "gain_gt (Fin a) (Fin b) = (b < a)"
| "gain_gt NaN v = False"
| "gain_gt v NaN = False"
| "gain_gt v PosInf = False"
| "gain_gt PosInf v = True"
| "gain_gt NegInf v = False"
| "gain_gt v NegInf = True"

text \<open>The two local variables of the split search.\<close>

record 'a search =
  best_info_gain :: fval
  best_split :: "'a split option"

text \<open>An instance of the class.\<close>

record 'a model =
  max_depth :: "int option"
  tree :: "'a tree option"

text \<open>An exception raised by a call ends the caller: the next statement runs on a value only.\<close>

definition err_bind :: "error + 'b \<Rightarrow> ('b \<Rightarrow> error + 'c) \<Rightarrow> error + 'c" where
  "err_bind r f = (case r of Inl e \<Rightarrow> Inl e | Inr v \<Rightarrow> f v)"

subsection \<open>The NumPy operations the code uses\<close>

text \<open>\<^verbatim>\<open>np.unique\<close>: the distinct values, ascending.\<close>

definition unique :: "'b::linorder list \<Rightarrow> 'b list" where
  "unique xs = sort (remdups xs)"

text \<open>
  \<^verbatim>\<open>np.bincount\<close>: raises \<^verbatim>\<open>ValueError\<close> on a negative entry; otherwise the
  counts of \<open>0 .. max\<close>, and the empty array for the empty array.
\<close>

definition bincount :: "int list \<Rightarrow> error + nat list" where
  "bincount y =
     (if list_ex (\<lambda>l. l < 0) y then Inl ValueError
      else if y = [] then Inr []
      else Inr (map (\<lambda>k. count_list y (int k)) [0 ..< nat (Max (set y)) + 1]))"

text \<open>\<^verbatim>\<open>argmax\<close>: the first index of the maximum; \<^verbatim>\<open>ValueError\<close> on the empty array.\<close>

definition argmax :: "nat list \<Rightarrow> error + nat" where
  "argmax cs =
     (if cs = [] then Inl ValueError
      else Inr (length (takeWhile (\<lambda>c. c \<noteq> Max (set cs)) cs)))"

text \<open>\<^verbatim>\<open>X[:, j]\<close>, for \<open>j\<close> in \<^verbatim>\<open>range(num_features)\<close>.\<close>

definition column :: "'a matrix \<Rightarrow> nat \<Rightarrow> 'a list" where
  "column X j = map (\<lambda>r. r ! j) (rows X)"

text \<open>\<^verbatim>\<open>y[mask]\<close> with a boolean mask: the lengths must agree.\<close>

definition mask_select :: "'b list \<Rightarrow> bool list \<Rightarrow> error + 'b list" where
  "mask_select y m =
     (if length m \<noteq> length y then Inl IndexError
      else Inr (map fst (filter snd (zip y m))))"

text \<open>
  \<^verbatim>\<open>X[idx]\<close> with an integer array: row \<open>idx[k]\<close> of \<open>X\<close> for every \<open>k\<close>, negative
  indices counting from the end, \<^verbatim>\<open>IndexError\<close> when one is out of bounds.
\<close>

definition take_rows :: "'a matrix \<Rightarrow> int list \<Rightarrow> error + 'a matrix" where
  "take_rows X idx =
     (let n = int (length (rows X)) in
      if list_all (\<lambda>i. - n \<le> i \<and> i < n) idx
      then Inr \<lparr>rows = map (\<lambda>i. rows X ! nat (if i < 0 then n + i else i)) idx,
                ncols = ncols X\<rparr>
      else Inl IndexError)"

subsection \<open>Entropy and information gain\<close>

text \<open>The constant \<^verbatim>\<open>1e-9\<close>.\<close>

definition eps :: real where
  "eps = 1 / 1000000000"

text \<open>
  \<^verbatim>\<open>_entropy\<close>: \<^verbatim>\<open>class_probs = np.bincount(y) / len(y)\<close>, then
  \<^verbatim>\<open>-np.sum(class_probs * np.log2(class_probs + 1e-9))\<close>. For the empty array
  \<^verbatim>\<open>class_probs\<close> is empty and the sum is 0.
\<close>

definition class_probs :: "nat list \<Rightarrow> nat \<Rightarrow> fval list" where
  "class_probs cs n = map (\<lambda>c. fdiv (real c) (real n)) cs"

definition entropy :: "int list \<Rightarrow> error + fval" where
  "entropy y =
     err_bind (bincount y) (\<lambda>cs.
       Inr (fneg (fsum (map (\<lambda>p. fmul p (flog2 (fadd p (Fin eps))))
                         (class_probs cs (length y))))))"

text \<open>
  \<^verbatim>\<open>_information_gain\<close>: the three entropies first, then the weights, where
  \<^verbatim>\<open>len(left) / len(parent)\<close> is a division of Python integers, which raises when the
  divisor is 0 and is finite otherwise.
\<close>

definition information_gain :: "int list \<Rightarrow> int list \<Rightarrow> int list \<Rightarrow> error + fval" where
  "information_gain parent left right =
     err_bind (entropy parent) (\<lambda>parent_entropy.
     err_bind (entropy left) (\<lambda>left_entropy.
     err_bind (entropy right) (\<lambda>right_entropy.
       if length parent = 0 then Inl ZeroDivisionError
       else Inr (fsub parent_entropy
              (fadd (fmul (Fin (real (length left) / real (length parent))) left_entropy)
                    (fmul (Fin (real (length right) / real (length parent))) right_entropy))))))"

subsection \<open>The split search\<close>

text \<open>
  The body of the inner loop of \<^verbatim>\<open>_build_tree\<close>, for one feature and one threshold:
  first the two masks, the two label arrays and the gain of the candidate, \<close>

definition evaluate_split ::
  "'a::linorder matrix \<Rightarrow> int list \<Rightarrow> nat \<Rightarrow> 'a \<Rightarrow> error + fval \<times> 'a split" where
  "evaluate_split X y j t =
     (let left_mask = map (\<lambda>v. v \<le> t) (column X j);
          right_mask = map Not left_mask
      in err_bind (mask_select y left_mask) (\<lambda>ly.
         err_bind (mask_select y right_mask) (\<lambda>ry.
         err_bind (information_gain y ly ry) (\<lambda>info_gain.
           Inr (info_gain, \<lparr>feature_idx = j, threshold = t, left_y = ly, right_y = ry\<rparr>)))))"

text \<open>then the comparison \<^verbatim>\<open>info_gain > best_info_gain\<close> and the two assignments.\<close>

definition update_best :: "'a search \<Rightarrow> fval \<times> 'a split \<Rightarrow> 'a search" where
  "update_best st c =
     (if gain_gt (fst c) (best_info_gain st)
      then \<lparr>best_info_gain = fst c, best_split = Some (snd c)\<rparr>
      else st)"

definition try_threshold ::
  "'a::linorder matrix \<Rightarrow> int list \<Rightarrow> nat \<Rightarrow> 'a \<Rightarrow> 'a search \<Rightarrow> error + 'a search" where
  "try_threshold X y j t st =
     err_bind (evaluate_split X y j t) (\<lambda>c. Inr (update_best st c))"

text \<open>The inner loop, over the thresholds of one feature.\<close>

fun scan_thresholds ::
  "'a::linorder matrix \<Rightarrow> int list \<Rightarrow> nat \<Rightarrow> 'a list \<Rightarrow> 'a search \<Rightarrow> error + 'a search" where
  "scan_thresholds X y j [] st = Inr st"
| "scan_thresholds X y j (t # ts) st =
     err_bind (try_threshold X y j t st) (scan_thresholds X y j ts)"

text \<open>The outer loop, over the feature indices.\<close>

fun scan_features ::
  "'a::linorder matrix \<Rightarrow> int list \<Rightarrow> nat list \<Rightarrow> 'a search \<Rightarrow> error + 'a search" where
  "scan_features X y [] st = Inr st"
| "scan_features X y (j # js) st =
     err_bind (scan_thresholds X y j (unique (column X j)) st) (scan_features X y js)"

definition init_search :: "'a search" where
  "init_search = \<lparr>best_info_gain = NegInf, best_split = None\<rparr>"

definition find_best_split :: "'a::linorder matrix \<Rightarrow> int list \<Rightarrow> error + 'a search" where
  "find_best_split X y = scan_features X y [0 ..< ncols X] init_search"

subsection \<open>The tree builder\<close>

text \<open>\<^verbatim>\<open>{'class': np.bincount(y).argmax()}\<close>.\<close>

definition majority_leaf :: "int list \<Rightarrow> error + 'a tree" where
  "majority_leaf y =
     err_bind (bincount y) (\<lambda>cs. err_bind (argmax cs) (\<lambda>k. Inr (Leaf (int k))))"

text \<open>\<^verbatim>\<open>self.max_depth and depth >= self.max_depth\<close>: \<^verbatim>\<open>None\<close> and 0 are falsy.\<close>

definition depth_reached :: "int option \<Rightarrow> int \<Rightarrow> bool" where
  "depth_reached md depth =
     (case md of None \<Rightarrow> False | Some d \<Rightarrow> d \<noteq> 0 \<and> d \<le> depth)"

text \<open>
  \<^verbatim>\<open>_build_tree\<close>. The first argument bounds the depth of the recursion, as the
  interpreter's recursion limit does: \<open>None\<close> is the call that exceeds it.
\<close>

fun build_tree ::
  "nat \<Rightarrow> int option \<Rightarrow> 'a::linorder matrix \<Rightarrow> int list \<Rightarrow> int \<Rightarrow> (error + 'a tree) option" where
  "build_tree 0 md X y depth = None"
| "build_tree (Suc fuel) md X y depth =
     (let unique_classes = unique y in
      if length unique_classes = 1 then Some (Inr (Leaf (unique_classes ! 0)))
      else if length (rows X) = 0 \<or> depth_reached md depth then Some (majority_leaf y)
      else
       (case find_best_split X y of Inl e \<Rightarrow> Some (Inl e) | Inr st \<Rightarrow>
       (case best_split st of None \<Rightarrow> Some (majority_leaf y) | Some sp \<Rightarrow>
       (case take_rows X (left_y sp) of Inl e \<Rightarrow> Some (Inl e) | Inr XL \<Rightarrow>
       (case build_tree fuel md XL (left_y sp) (depth + 1) of
          None \<Rightarrow> None | Some (Inl e) \<Rightarrow> Some (Inl e) | Some (Inr left_tree) \<Rightarrow>
       (case take_rows X (right_y sp) of Inl e \<Rightarrow> Some (Inl e) | Inr XR \<Rightarrow>
       (case build_tree fuel md XR (right_y sp) (depth + 1) of
          None \<Rightarrow> None | Some (Inl e) \<Rightarrow> Some (Inl e) | Some (Inr right_tree) \<Rightarrow>
          Some (Inr (Internal (feature_idx sp) (threshold sp) left_tree right_tree)))))))))"

text \<open>\<^verbatim>\<open>__init__\<close> and \<^verbatim>\<open>fit\<close>; a failed \<^verbatim>\<open>fit\<close> leaves no new model.\<close>

definition init :: "int option \<Rightarrow> 'a model" where
  "init md = \<lparr>max_depth = md, tree = None\<rparr>"

definition fit ::
  "nat \<Rightarrow> 'a::linorder model \<Rightarrow> 'a matrix \<Rightarrow> int list \<Rightarrow> (error + 'a model) option" where
  "fit fuel m X y =
     (case build_tree fuel (max_depth m) X y 0 of
        None \<Rightarrow> None
      | Some (Inl e) \<Rightarrow> Some (Inl e)
      | Some (Inr t) \<Rightarrow> Some (Inr (m\<lparr>tree := Some t\<rparr>)))"

subsection \<open>Prediction\<close>

text \<open>
  \<^verbatim>\<open>_predict_single\<close>. Its argument \<^verbatim>\<open>tree\<close> is \<^verbatim>\<open>self.tree\<close> in the call from
  \<^verbatim>\<open>predict\<close>, which is \<^verbatim>\<open>None\<close> before \<^verbatim>\<open>fit\<close>, and a subtree in the recursive calls:
  \<open>predict_single\<close> is the outer call and \<open>walk\<close> the recursion on a dict.
  \<^verbatim>\<open>'class' in tree\<close> raises \<^verbatim>\<open>TypeError\<close> when the tree is \<^verbatim>\<open>None\<close>;
  \<^verbatim>\<open>x[tree['feature_idx']]\<close> raises \<^verbatim>\<open>IndexError\<close> on a row that is too short.
\<close>

fun walk :: "'a::linorder list \<Rightarrow> 'a tree \<Rightarrow> error + int" where
  "walk x (Leaf c) = Inr c"
| "walk x (Internal f thr l r) =
     (if length x \<le> f then Inl IndexError
      else if x ! f \<le> thr then walk x l else walk x r)"

definition predict_single :: "'a::linorder list \<Rightarrow> 'a tree option \<Rightarrow> error + int" where
  "predict_single x t = (case t of None \<Rightarrow> Inl TypeError | Some t' \<Rightarrow> walk x t')"

text \<open>The list comprehension of \<^verbatim>\<open>predict\<close>: the first exception ends it.\<close>

fun collect :: "('b \<Rightarrow> error + 'c) \<Rightarrow> 'b list \<Rightarrow> error + 'c list" where
  "collect f [] = Inr []"
| "collect f (x # xs) =
     err_bind (f x) (\<lambda>v. err_bind (collect f xs) (\<lambda>vs. Inr (v # vs)))"

definition predict :: "'a::linorder model \<Rightarrow> 'a matrix \<Rightarrow> error + int list" where
  "predict m X = collect (\<lambda>x. predict_single x (tree m)) (rows X)"

subsection \<open>Notions used to state the properties\<close>

text \<open>
  The candidates of the split search in the order of the two loops: feature indices
  ascending, and for each feature its distinct values ascending.
\<close>

definition candidates :: "'a::linorder matrix \<Rightarrow> nat list \<Rightarrow> (nat \<times> 'a) list" where
  "candidates X js = concat (map (\<lambda>j. map (Pair j) (unique (column X j))) js)"

text \<open>The two loops as one loop over a list of candidates.\<close>

fun scan_list ::
  "'a::linorder matrix \<Rightarrow> int list \<Rightarrow> (nat \<times> 'a) list \<Rightarrow> 'a search \<Rightarrow> error + 'a search" where
  "scan_list X y [] st = Inr st"
| "scan_list X y (c # cs) st =
     err_bind (try_threshold X y (fst c) (snd c) st) (scan_list X y cs)"

text \<open>
  The order of the two loops on candidates, written out: feature index ascending, then
  threshold ascending.
\<close>

definition scan_before :: "nat \<times> 'a::linorder \<Rightarrow> nat \<times> 'a \<Rightarrow> bool" where
  "scan_before a b \<longleftrightarrow> fst a < fst b \<or> (fst a = fst b \<and> snd a < snd b)"

text \<open>
  An evaluated candidate that can be recorded at all (its gain compares greater than
  minus infinity) and whose gain no evaluated candidate of \<open>vs\<close> exceeds.
\<close>

definition no_better :: "(fval \<times> 'b) list \<Rightarrow> fval \<times> 'b \<Rightarrow> bool" where
  "no_better vs c \<longleftrightarrow>
     gain_gt (fst c) NegInf \<and> list_all (\<lambda>c'. \<not> gain_gt (fst c') (fst c)) vs"

text \<open>
  The traversal as the specification words it: at a leaf its label, at an inner node left
  when the row's value at the feature index is at most the threshold, right otherwise.
\<close>

fun route :: "'a::linorder tree \<Rightarrow> 'a list \<Rightarrow> int" where
  "route (Leaf c) x = c"
| "route (Internal f thr l r) x = (if x ! f \<le> thr then route l x else route r x)"

text \<open>Every feature index of the tree is a column index of a matrix with \<open>k\<close> columns.\<close>

fun features_below :: "nat \<Rightarrow> 'a tree \<Rightarrow> bool" where
  "features_below k (Leaf c) = True"
| "features_below k (Internal f thr l r) = (f < k \<and> features_below k l \<and> features_below k r)"

text \<open>The rows the specification sends to a child: those selected by a mask.\<close>

definition rows_where :: "'a matrix \<Rightarrow> bool list \<Rightarrow> error + 'a matrix" where
  "rows_where X m = err_bind (mask_select (rows X) m) (\<lambda>rs. Inr \<lparr>rows = rs, ncols = ncols X\<rparr>)"

text \<open>The training sets of the examples.\<close>

definition example_X :: "int matrix" where
  "example_X = \<lparr>rows = [[1], [2], [3], [4]], ncols = 1\<rparr>"

definition example_y :: "int list" where
  "example_y = [0, 0, 1, 1]"

definition constant_X :: "int matrix" where
  "constant_X = \<lparr>rows = [[5], [5]], ncols = 1\<rparr>"

definition mixed_y :: "int list" where
  "mixed_y = [0, 1]"

text \<open>The gain of a split of two equally frequent labels into two pure halves.\<close>

definition pure_gain :: real where
  "pure_gain = log 2 (1 + eps) - log 2 (1 / 2 + eps)"

text \<open>
  Two features that split the two labels equally well; the values of a column are not in
  ascending order.
\<close>

definition tie_X :: "int matrix" where
  "tie_X = \<lparr>rows = [[2, 2], [1, 1]], ncols = 2\<rparr>"

definition tie_y :: "int list" where
  "tie_y = [1, 0]"

text \<open>
  The majority label as the specification words it: a label of the set whose count no
  other label exceeds, the smallest one among the labels with that count.
\<close>

definition is_majority :: "int list \<Rightarrow> int \<Rightarrow> bool" where
  "is_majority y c \<longleftrightarrow>
     c \<in> set y
     \<and> list_all (\<lambda>l. count_list y l \<le> count_list y c) y
     \<and> list_all (\<lambda>l. count_list y l < count_list y c \<or> c \<le> l) y"

text \<open>A training set with a strict majority, and one whose labels exceed the row count.\<close>

definition skewed_X :: "int matrix" where
  "skewed_X = \<lparr>rows = [[1], [2], [3]], ncols = 1\<rparr>"

definition skewed_y :: "int list" where
  "skewed_y = [0, 0, 1]"

definition skewed_gain :: real where
  "skewed_gain = log 2 (1 + eps) - (2 / 3 * log 2 (2 / 3 + eps) + 1 / 3 * log 2 (1 / 3 + eps))"

definition offset_X :: "int matrix" where
  "offset_X = \<lparr>rows = [[1], [2]], ncols = 1\<rparr>"

definition offset_y :: "int list" where
  "offset_y = [0, 2]"

text \<open>The relative frequency of a label.\<close>

definition freq :: "int list \<Rightarrow> int \<Rightarrow> real" where
  "freq y l = real (count_list y l) / real (length y)"

section \<open>Properties\<close>

subsection \<open>Exceptions\<close>

lemma err_bind_Inl [simp]: "err_bind (Inl e) f = Inl e"
  by (simp add: err_bind_def)

lemma err_bind_Inr [simp]: "err_bind (Inr v) f = f v"
  by (simp add: err_bind_def)

lemma err_bind_assoc: "err_bind (err_bind r f) g = err_bind r (\<lambda>v. err_bind (f v) g)"
  by (cases r) simp_all

lemma err_bind_cong:
  "r = r' \<Longrightarrow> (\<And>v. r' = Inr v \<Longrightarrow> f v = g v) \<Longrightarrow> err_bind r f = err_bind r' g"
  by (cases r') simp_all

lemma err_bind_eq_Inr: "err_bind r f = Inr w \<longleftrightarrow> (\<exists>v. r = Inr v \<and> f v = Inr w)"
  by (cases r) simp_all

subsection \<open>The split search returns the first candidate of maximal gain\<close>

lemma scan_thresholds_flat: "scan_thresholds X y j ts st = scan_list X y (map (Pair j) ts) st"
  by (induction ts arbitrary: st) (simp_all cong: err_bind_cong)

lemma scan_list_append:
  "scan_list X y (as @ bs) st = err_bind (scan_list X y as st) (scan_list X y bs)"
  by (induction as arbitrary: st) (simp_all add: err_bind_assoc cong: err_bind_cong)

lemma scan_features_flat: "scan_features X y js st = scan_list X y (candidates X js) st"
  by (induction js arbitrary: st)
     (simp_all add: candidates_def scan_list_append scan_thresholds_flat cong: err_bind_cong)

lemma scan_list_foldl:
  "scan_list X y cs st =
     err_bind (collect (\<lambda>c. evaluate_split X y (fst c) (snd c)) cs)
       (\<lambda>vs. Inr (foldl update_best st vs))"
proof (induction cs arbitrary: st)
  case Nil
  show ?case by simp
next
  case (Cons c cs)
  show ?case
  proof (cases "evaluate_split X y (fst c) (snd c)")
    case (Inl e)
    then show ?thesis by (simp add: try_threshold_def)
  next
    case (Inr v)
    then show ?thesis
      by (cases "collect (\<lambda>c. evaluate_split X y (fst c) (snd c)) cs")
         (simp_all add: try_threshold_def Cons.IH)
  qed
qed

lemma gain_gt_trans: "gain_gt a b \<Longrightarrow> gain_gt g a \<Longrightarrow> gain_gt g b"
  by (cases a; cases b; cases g) simp_all

lemma gain_gt_irrefl: "\<not> gain_gt a a"
  by (cases a) simp_all

lemma exists_maximal_above:
  "c \<in> set vs \<Longrightarrow>
   \<exists>m\<in>set vs. (fst m = fst c \<or> gain_gt (fst m) (fst c))
              \<and> (\<forall>c'\<in>set vs. \<not> gain_gt (fst c') (fst m))"
proof (induction vs arbitrary: c)
  case Nil
  then show ?case by simp
next
  case (Cons v vs)
  show ?case
  proof (cases "\<exists>c'\<in>set vs. fst c' = fst c \<or> gain_gt (fst c') (fst c)")
    case True
    then obtain c' where c': "c' \<in> set vs" "fst c' = fst c \<or> gain_gt (fst c') (fst c)"
      by auto
    from Cons.IH[OF c'(1)] obtain m where m: "m \<in> set vs"
      "fst m = fst c' \<or> gain_gt (fst m) (fst c')" "\<forall>c''\<in>set vs. \<not> gain_gt (fst c'') (fst m)"
      by auto
    from c'(2) m(2) have above: "fst m = fst c \<or> gain_gt (fst m) (fst c)"
      by (auto intro: gain_gt_trans)
    show ?thesis
    proof (cases "gain_gt (fst v) (fst m)")
      case False
      with m above show ?thesis by auto
    next
      case True
      have "\<forall>c''\<in>set (v # vs). \<not> gain_gt (fst c'') (fst v)"
        using m(3) True by (auto simp: gain_gt_irrefl dest: gain_gt_trans)
      moreover from above True have "fst v = fst c \<or> gain_gt (fst v) (fst c)"
        by (auto intro: gain_gt_trans)
      ultimately show ?thesis by auto
    qed
  next
    case False
    with Cons.prems have cv: "c = v" by auto
    from False cv have "\<forall>c''\<in>set (v # vs). \<not> gain_gt (fst c'') (fst v)"
      by (auto simp: gain_gt_irrefl)
    with cv show ?thesis by auto
  qed
qed

lemma find_not_None: "x \<in> set xs \<Longrightarrow> P x \<Longrightarrow> find P xs \<noteq> None"
  by (auto simp: find_None_iff)

text \<open>
  The loop started with best gain \<open>b\<close> ends with the first candidate whose gain exceeds
  \<open>b\<close> and is exceeded by none, or unchanged when there is no such candidate.
\<close>

lemma foldl_update_best:
  "foldl update_best st vs =
     (case find (\<lambda>c. gain_gt (fst c) (best_info_gain st)
                    \<and> list_all (\<lambda>c'. \<not> gain_gt (fst c') (fst c)) vs) vs of
        None \<Rightarrow> st
      | Some c \<Rightarrow> \<lparr>best_info_gain = fst c, best_split = Some (snd c)\<rparr>)"
proof (induction vs arbitrary: st)
  case Nil
  show ?case by simp
next
  case (Cons v vs)
  let ?b = "best_info_gain st"
  let ?top = "\<lambda>ws c. list_all (\<lambda>c'. \<not> gain_gt (fst c') (fst c)) ws"
  show ?case
  proof (cases "gain_gt (fst v) ?b")
    case False
    then have st': "update_best st v = st" by (simp add: update_best_def)
    have "find (\<lambda>c. gain_gt (fst c) ?b \<and> ?top (v # vs) c) vs
        = find (\<lambda>c. gain_gt (fst c) ?b \<and> ?top vs c) vs"
      using False by (intro find_cong) (auto dest: gain_gt_trans)
    then show ?thesis using False by (simp add: st' Cons.IH)
  next
    case True
    let ?st = "\<lparr>best_info_gain = fst v, best_split = Some (snd v)\<rparr>"
    from True have st': "update_best st v = ?st" by (simp add: update_best_def)
    show ?thesis
    proof (cases "?top vs v")
      case nb: True
      have "find (\<lambda>c. gain_gt (fst c) (fst v) \<and> ?top vs c) vs = None"
        using nb by (auto simp: find_None_iff list_all_iff)
      then show ?thesis using True nb by (simp add: st' Cons.IH gain_gt_irrefl)
    next
      case nb: False
      then obtain c' where c': "c' \<in> set vs" "gain_gt (fst c') (fst v)"
        by (auto simp: list_all_iff)
      have "find (\<lambda>c. gain_gt (fst c) ?b \<and> ?top (v # vs) c) vs
          = find (\<lambda>c. gain_gt (fst c) (fst v) \<and> ?top vs c) vs"
      proof (intro find_cong refl)
        fix c assume c: "c \<in> set vs"
        show "(gain_gt (fst c) ?b \<and> ?top (v # vs) c)
            = (gain_gt (fst c) (fst v) \<and> ?top vs c)"
        proof (cases "?top vs c")
          case False
          then show ?thesis by simp
        next
          case top: True
          with c' have nc: "\<not> gain_gt (fst c') (fst c)" by (simp add: list_all_iff)
          show ?thesis
          proof (cases "gain_gt (fst c) (fst v)")
            case True
            then have "\<not> gain_gt (fst v) (fst c)"
              using gain_gt_trans gain_gt_irrefl by blast
            moreover from True \<open>gain_gt (fst v) ?b\<close> have "gain_gt (fst c) ?b"
              by (rule gain_gt_trans[rotated])
            ultimately show ?thesis using True top by simp
          next
            case False
            have "\<not> gain_gt (fst c) ?b \<or> gain_gt (fst v) (fst c)"
              using False nc c'(2) by (cases "fst c"; cases "fst v"; cases "fst c'") simp_all
            with False show ?thesis by auto
          qed
        qed
      qed
      moreover have "find (\<lambda>c. gain_gt (fst c) (fst v) \<and> ?top vs c) vs \<noteq> None"
      proof -
        from exists_maximal_above[OF c'(1)] obtain m where m: "m \<in> set vs"
          "fst m = fst c' \<or> gain_gt (fst m) (fst c')" "\<forall>c''\<in>set vs. \<not> gain_gt (fst c'') (fst m)"
          by auto
        from m(2) c'(2) have "gain_gt (fst m) (fst v)"
          by (auto intro: gain_gt_trans)
        with m(3) have "gain_gt (fst m) (fst v) \<and> ?top vs m"
          by (simp add: list_all_iff)
        with m(1) show ?thesis by (rule find_not_None)
      qed
      ultimately show ?thesis using True nb by (auto simp: st' Cons.IH)
    qed
  qed
qed

lemma init_gain: "best_info_gain init_search = NegInf"
  by (simp add: init_search_def)

lemma find_best_split_first_max:
  "find_best_split X y =
     err_bind (collect (\<lambda>c. evaluate_split X y (fst c) (snd c)) (candidates X [0 ..< ncols X]))
       (\<lambda>vs. Inr (case find (no_better vs) vs of
                    None \<Rightarrow> init_search
                  | Some c \<Rightarrow> \<lparr>best_info_gain = fst c, best_split = Some (snd c)\<rparr>))"
proof -
  have "no_better vs = (\<lambda>c. gain_gt (fst c) NegInf
                          \<and> list_all (\<lambda>c'. \<not> gain_gt (fst c') (fst c)) vs)"
    for vs :: "(fval \<times> 'a split) list"
    by (rule ext) (simp add: no_better_def)
  then show ?thesis
    by (simp add: find_best_split_def scan_features_flat scan_list_foldl foldl_update_best
        init_gain)
qed

subsection \<open>The order of the scan\<close>

lemma unique_strictly_ascending: "sorted_wrt (<) (unique xs)"
  by (simp add: unique_def strict_sorted_iff)

lemma set_unique: "set (unique xs) = set xs"
  by (simp add: unique_def)

lemma candidates_feature: "c \<in> set (candidates X js) \<Longrightarrow> fst c \<in> set js"
  by (auto simp: candidates_def)

lemma set_candidates:
  "set (candidates X js) = {c. fst c \<in> set js \<and> snd c \<in> set (column X (fst c))}"
  by (auto simp: candidates_def set_unique)

lemma candidates_in_scan_order:
  "sorted_wrt (<) js \<Longrightarrow> sorted_wrt scan_before (candidates X js)"
proof (induction js)
  case Nil
  show ?case by (simp add: candidates_def)
next
  case (Cons j js)
  have split: "candidates X (j # js) = map (Pair j) (unique (column X j)) @ candidates X js"
    by (simp add: candidates_def)
  have "sorted_wrt scan_before (map (Pair j) (unique (column X j)))"
    using unique_strictly_ascending[of "column X j"]
    by (simp add: sorted_wrt_map scan_before_def)
  moreover have "sorted_wrt scan_before (candidates X js)"
    using Cons by simp
  moreover have "\<forall>a\<in>set (map (Pair j) (unique (column X j))). \<forall>b\<in>set (candidates X js).
      scan_before a b"
    using Cons.prems by (auto simp: scan_before_def dest!: candidates_feature)
  ultimately show ?case
    by (simp only: split sorted_wrt_append)
qed

subsection \<open>Entropies of the examples\<close>

lemma eps_pos: "0 < eps"
  by (simp add: eps_def)

lemma log_one_eps_pos: "0 < log 2 (1 + eps)"
  using eps_pos by simp

lemma log_half_eps_neg: "log 2 (1 / 2 + eps) < 0"
  by (simp add: eps_def)

lemma log_third_eps_neg: "log 2 (1 / 3 + eps) < 0"
  by (simp add: eps_def)

lemma log_two_thirds_eps_neg: "log 2 (2 / 3 + eps) < 0"
  by (simp add: eps_def)

lemma pure_gain_pos: "0 < pure_gain"
  using log_one_eps_pos log_half_eps_neg by (simp add: pure_gain_def)

lemma pos_plus_eps: "0 \<le> p \<Longrightarrow> 0 < p + eps"
  using eps_pos by simp

lemmas entropy_defs = class_probs_def fdiv_def fsum_def eps_pos pos_plus_eps

lemma bincount_Nil: "bincount [] = Inr []" by code_simp
lemma bincount_0: "bincount [0] = Inr [1]" by code_simp
lemma bincount_1: "bincount [1] = Inr [0, 1]" by code_simp
lemma bincount_00: "bincount [0, 0] = Inr [2]" by code_simp
lemma bincount_01: "bincount [0, 1] = Inr [1, 1]" by code_simp
lemma bincount_11: "bincount [1, 1] = Inr [0, 2]" by code_simp
lemma bincount_011: "bincount [0, 1, 1] = Inr [1, 2]" by code_simp
lemma bincount_001: "bincount [0, 0, 1] = Inr [2, 1]" by code_simp
lemma bincount_0011: "bincount [0, 0, 1, 1] = Inr [2, 2]" by code_simp

lemma entropy_Nil: "entropy [] = Inr (Fin 0)"
  by (simp add: entropy_def bincount_Nil entropy_defs)
lemma entropy_0: "entropy [0] = Inr (Fin (- log 2 (1 + eps)))"
  by (simp add: entropy_def bincount_0 entropy_defs)
lemma entropy_1: "entropy [1] = Inr (Fin (- log 2 (1 + eps)))"
  by (simp add: entropy_def bincount_1 entropy_defs)
lemma entropy_00: "entropy [0, 0] = Inr (Fin (- log 2 (1 + eps)))"
  by (simp add: entropy_def bincount_00 entropy_defs)
lemma entropy_11: "entropy [1, 1] = Inr (Fin (- log 2 (1 + eps)))"
  by (simp add: entropy_def bincount_11 entropy_defs)
lemma entropy_01: "entropy [0, 1] = Inr (Fin (- log 2 (1 / 2 + eps)))"
  by (simp add: entropy_def bincount_01 entropy_defs)
lemma entropy_0011: "entropy [0, 0, 1, 1] = Inr (Fin (- log 2 (1 / 2 + eps)))"
  by (simp add: entropy_def bincount_0011 entropy_defs)
lemma entropy_011:
  "entropy [0, 1, 1] = Inr (Fin (- (1 / 3 * log 2 (1 / 3 + eps) + 2 / 3 * log 2 (2 / 3 + eps))))"
  by (simp add: entropy_def bincount_011 entropy_defs)
lemma entropy_001:
  "entropy [0, 0, 1] = Inr (Fin (- (2 / 3 * log 2 (2 / 3 + eps) + 1 / 3 * log 2 (1 / 3 + eps))))"
  by (simp add: entropy_def bincount_001 entropy_defs)

lemmas evaluate_defs = evaluate_split_def column_def mask_select_def information_gain_def fsub_def

subsection \<open>The worked example\<close>

lemma example_threshold_1:
  "\<exists>g. evaluate_split example_X example_y 0 1 =
         Inr (Fin g, \<lparr>feature_idx = 0, threshold = 1, left_y = [0], right_y = [0, 1, 1]\<rparr>)
       \<and> g < pure_gain"
  using log_one_eps_pos log_third_eps_neg log_two_thirds_eps_neg
  by (simp add: evaluate_defs example_X_def example_y_def pure_gain_def
      entropy_0011 entropy_0 entropy_011) argo

lemma example_threshold_2:
  "evaluate_split example_X example_y 0 2 =
     Inr (Fin pure_gain, \<lparr>feature_idx = 0, threshold = 2, left_y = [0, 0], right_y = [1, 1]\<rparr>)"
  by (simp add: evaluate_defs example_X_def example_y_def pure_gain_def
      entropy_0011 entropy_00 entropy_11)

lemma example_threshold_3:
  "\<exists>g. evaluate_split example_X example_y 0 3 =
         Inr (Fin g, \<lparr>feature_idx = 0, threshold = 3, left_y = [0, 0, 1], right_y = [1]\<rparr>)
       \<and> g < pure_gain"
  using log_one_eps_pos log_third_eps_neg log_two_thirds_eps_neg
  by (simp add: evaluate_defs example_X_def example_y_def pure_gain_def
      entropy_0011 entropy_1 entropy_001) argo

lemma example_threshold_4:
  "evaluate_split example_X example_y 0 4 =
     Inr (Fin 0, \<lparr>feature_idx = 0, threshold = 4, left_y = [0, 0, 1, 1], right_y = []\<rparr>)"
  by (simp add: evaluate_defs example_X_def example_y_def entropy_0011 entropy_Nil)

lemma example_thresholds: "unique (column example_X 0) = [1, 2, 3, 4]"
  by (simp add: example_X_def column_def unique_def)

lemma example_split:
  "find_best_split example_X example_y =
     Inr \<lparr>best_info_gain = Fin pure_gain,
          best_split = Some \<lparr>feature_idx = 0, threshold = 2,
                              left_y = [0, 0], right_y = [1, 1]\<rparr>\<rparr>"
proof -
  obtain g1 where g1:
    "evaluate_split example_X example_y 0 1 =
       Inr (Fin g1, \<lparr>feature_idx = 0, threshold = 1, left_y = [0], right_y = [0, 1, 1]\<rparr>)"
    "g1 < pure_gain"
    using example_threshold_1 by blast
  obtain g3 where g3:
    "evaluate_split example_X example_y 0 3 =
       Inr (Fin g3, \<lparr>feature_idx = 0, threshold = 3, left_y = [0, 0, 1], right_y = [1]\<rparr>)"
    "g3 < pure_gain"
    using example_threshold_3 by blast
  have n: "[0 ..< ncols example_X] = [0]"
    by (simp add: example_X_def)
  show ?thesis
    using g1(2) g3(2) pure_gain_pos
    by (simp add: find_best_split_def n example_thresholds try_threshold_def g1(1)
        example_threshold_2 g3(1) example_threshold_4 update_best_def init_search_def)
qed

lemma example_tree:
  assumes "\<not> depth_reached md 0"
  shows "build_tree (Suc (Suc n)) md example_X example_y 0 =
           Some (Inr (Internal 0 2 (Leaf 0) (Leaf 1)))"
proof -
  have u: "unique example_y = [0, 1]"
    by (simp add: example_y_def unique_def)
  have l: "take_rows example_X [0, 0] = Inr \<lparr>rows = [[1], [1]], ncols = 1\<rparr>"
    by (simp add: take_rows_def example_X_def)
  have r: "take_rows example_X [1, 1] = Inr \<lparr>rows = [[2], [2]], ncols = 1\<rparr>"
    by (simp add: take_rows_def example_X_def)
  have ul: "unique [0, 0 :: int] = [0]"
    by (simp add: unique_def)
  have ur: "unique [1, 1 :: int] = [1]"
    by (simp add: unique_def)
  have k: "length (rows example_X) = 4"
    by (simp add: example_X_def)
  show ?thesis
    using assms by (simp add: Let_def u k example_split l r ul ur)
qed

text \<open>
  C3: fitting on X = [[1],[2],[3],[4]], y = [0,0,1,1] gives, for every recursion limit of at
  least two calls, the tree whose root tests feature 0 against threshold 2, with the leaf
  of class 0 on the left and the leaf of class 1 on the right; predicting the rows
  [[1],[4]] with that model returns [0, 1].
\<close>

theorem worked_example:
  "fit (Suc (Suc n)) (init None) example_X example_y =
     Some (Inr \<lparr>max_depth = None, tree = Some (Internal 0 2 (Leaf 0) (Leaf 1))\<rparr>)
   \<and> predict \<lparr>max_depth = None, tree = Some (Internal 0 (2 :: int) (Leaf 0) (Leaf 1))\<rparr>
        \<lparr>rows = [[1], [4]], ncols = 1\<rparr> = Inr [0, 1]"
proof -
  have "\<not> depth_reached None 0"
    by (simp add: depth_reached_def)
  then have "build_tree (Suc (Suc n)) None example_X example_y 0 =
      Some (Inr (Internal 0 2 (Leaf 0) (Leaf 1)))"
    by (rule example_tree)
  then have "fit (Suc (Suc n)) (init None) example_X example_y =
     Some (Inr \<lparr>max_depth = None, tree = Some (Internal 0 2 (Leaf 0) (Leaf 1))\<rparr>)"
    by (simp add: fit_def init_def)
  moreover have "predict \<lparr>max_depth = None, tree = Some (Internal 0 (2 :: int) (Leaf 0) (Leaf 1))\<rparr>
        \<lparr>rows = [[1], [4]], ncols = 1\<rparr> = Inr [0, 1]"
    by (simp add: predict_def predict_single_def)
  ultimately show ?thesis
    by simp
qed

subsection \<open>A constant feature with mixed labels\<close>

lemma constant_threshold:
  "evaluate_split constant_X mixed_y 0 5 =
     Inr (Fin 0, \<lparr>feature_idx = 0, threshold = 5, left_y = [0, 1], right_y = []\<rparr>)"
  by (simp add: evaluate_defs constant_X_def mixed_y_def entropy_01 entropy_Nil)

lemma constant_split:
  "find_best_split constant_X mixed_y =
     Inr \<lparr>best_info_gain = Fin 0,
          best_split = Some \<lparr>feature_idx = 0, threshold = 5, left_y = [0, 1], right_y = []\<rparr>\<rparr>"
proof -
  have n: "[0 ..< ncols constant_X] = [0]"
    by (simp add: constant_X_def)
  have t: "unique (column constant_X 0) = [5]"
    by (simp add: constant_X_def column_def unique_def)
  show ?thesis
    by (simp add: find_best_split_def n t try_threshold_def constant_threshold
        update_best_def init_search_def)
qed

lemma constant_left: "take_rows constant_X [0, 1] = Inr constant_X"
  by (simp add: take_rows_def constant_X_def)

lemma constant_never_returns: "build_tree fuel None constant_X mixed_y depth = None"
proof (induction fuel arbitrary: depth)
  case 0
  show ?case by simp
next
  case (Suc fuel)
  have u: "unique mixed_y = [0, 1]"
    by (simp add: mixed_y_def unique_def)
  have k: "length (rows constant_X) = 2"
    by (simp add: constant_X_def)
  show ?case
    by (simp add: Let_def u k depth_reached_def constant_split constant_left
        Suc.IH[unfolded mixed_y_def])
qed

text \<open>
  C2, evaluated on X = [[5],[5]], y = [0,1]: the only feature is constant, the search
  evaluates its maximum 5 as a threshold, records that split with an empty right part
  and gain 0, and the builder then calls itself on the same node again and again: no
  recursion limit is enough for it to return.
\<close>

theorem degenerate_threshold_is_selected:
  "find_best_split constant_X mixed_y =
     Inr \<lparr>best_info_gain = Fin 0,
          best_split = Some \<lparr>feature_idx = 0, threshold = 5, left_y = [0, 1], right_y = []\<rparr>\<rparr>
   \<and> Max (set (column constant_X 0)) = 5
   \<and> build_tree fuel None constant_X mixed_y depth = None"
  by (simp add: constant_split constant_never_returns) (simp add: constant_X_def column_def)

lemma unique_Nil: "unique [] = []"
  by (simp add: unique_def)

lemma majority_leaf_Nil: "majority_leaf [] = (Inl ValueError :: error + 'a tree)"
  by (simp add: majority_leaf_def bincount_Nil argmax_def)

lemma build_tree_empty:
  "build_tree (Suc fuel) md \<lparr>rows = [], ncols = k\<rparr> [] depth = Some (Inl ValueError)"
  by (simp add: Let_def unique_Nil majority_leaf_Nil)

text \<open>
  C5, evaluated on an empty sample subset: at every depth and for every setting of the
  maximum depth the builder raises \<^verbatim>\<open>ValueError\<close> (the \<^verbatim>\<open>argmax\<close> of an empty count array),
  and so does fitting X = [[5],[5]], y = [0,1] with maximum depth 1, whose right child
  is such an empty subset.
\<close>

theorem empty_subset_raises:
  "build_tree (Suc fuel) md \<lparr>rows = [], ncols = k\<rparr> [] depth = Some (Inl ValueError)
   \<and> fit (Suc (Suc fuel)) (init (Some 1)) constant_X mixed_y = Some (Inl ValueError)"
proof -
  have u: "unique mixed_y = [0, 1]"
    by (simp add: mixed_y_def unique_def)
  have k: "length (rows constant_X) = 2"
    by (simp add: constant_X_def)
  have l: "majority_leaf mixed_y = (Inr (Leaf 0) :: error + int tree)"
    by (simp add: majority_leaf_def mixed_y_def bincount_01 argmax_def)
  have r: "take_rows constant_X [] = Inr \<lparr>rows = [], ncols = 1\<rparr>"
    by (simp add: take_rows_def constant_X_def)
  have "build_tree (Suc (Suc fuel)) (Some 1) constant_X mixed_y 0 = Some (Inl ValueError)"
    by (simp add: Let_def u k depth_reached_def constant_split constant_left
        l[unfolded mixed_y_def] r majority_leaf_Nil unique_Nil)
  then have "fit (Suc (Suc fuel)) (init (Some 1)) constant_X mixed_y = Some (Inl ValueError)"
    by (simp add: fit_def init_def del: build_tree.simps)
  with build_tree_empty show ?thesis
    by blast
qed

subsection \<open>Prediction without a tree\<close>

text \<open>
  C8 as stated fails: on a model that was never fitted, predicting one row raises
  \<^verbatim>\<open>TypeError\<close>, which is not the NotFitted condition, and predicting no row succeeds.
\<close>

theorem predict_before_fit_counterexample:
  "predict (init None) \<lparr>rows = [[1 :: int]], ncols = 1\<rparr> = Inl TypeError
   \<and> (Inl TypeError :: error + int list) \<noteq> Inl NotFitted
   \<and> predict (init None) \<lparr>rows = ([] :: int list list), ncols = 1\<rparr> = Inr []"
  by (simp add: predict_def init_def predict_single_def)

text \<open>
  C8, amended: on a model that was never fitted, \<^verbatim>\<open>predict\<close> raises \<^verbatim>\<open>TypeError\<close> for
  every batch with at least one row and returns the empty list for the empty batch.
\<close>

theorem predict_before_fit:
  "predict (init md) X = (if rows X = [] then Inr [] else Inl TypeError)"
  by (cases "rows X") (simp_all add: predict_def init_def predict_single_def)

subsection \<open>Ties\<close>

lemma tie_candidates: "candidates tie_X [0 ..< ncols tie_X] = [(0, 1), (0, 2), (1, 1), (1, 2)]"
  by code_simp

lemma bincount_10: "bincount [1, 0] = Inr [1, 1]" by code_simp

lemma entropy_10: "entropy [1, 0] = Inr (Fin (- log 2 (1 / 2 + eps)))"
  by (simp add: entropy_def bincount_10 entropy_defs)

lemma tie_evaluate_low:
  "j < 2 \<Longrightarrow> evaluate_split tie_X tie_y j 1 =
     Inr (Fin pure_gain, \<lparr>feature_idx = j, threshold = 1, left_y = [0], right_y = [1]\<rparr>)"
  by (auto simp add: evaluate_defs tie_X_def tie_y_def pure_gain_def entropy_10 entropy_0
      entropy_1 less_Suc_eq numeral_2_eq_2)

lemma tie_evaluate_high:
  "j < 2 \<Longrightarrow> evaluate_split tie_X tie_y j 2 =
     Inr (Fin 0, \<lparr>feature_idx = j, threshold = 2, left_y = [1, 0], right_y = []\<rparr>)"
  by (auto simp add: evaluate_defs tie_X_def tie_y_def entropy_10 entropy_Nil
      less_Suc_eq numeral_2_eq_2)

text \<open>
  C6: a candidate replaces the current best only when its gain compares strictly greater
  than the best gain so far. The candidates of the search are exactly the pairs of a
  feature index and a value of that feature among the rows, each once, in the order feature
  index ascending and then threshold ascending. The search evaluates them in that order
  (the first exception of an evaluation ends it) and returns the first candidate whose
  gain is greater than minus infinity and is exceeded by the gain of no candidate; later
  candidates of equal gain never replace it.
\<close>

theorem first_maximal_candidate_wins:
  "(\<not> gain_gt (fst c) (best_info_gain st) \<longrightarrow> update_best st c = st)
   \<and> sorted_wrt scan_before (candidates X [0 ..< ncols X])
   \<and> set (candidates X [0 ..< ncols X])
       = {c. fst c < ncols X \<and> snd c \<in> (\<lambda>r. r ! fst c) ` set (rows X)}
   \<and> find_best_split X y =
       err_bind
         (collect (\<lambda>c. evaluate_split X y (fst c) (snd c)) (candidates X [0 ..< ncols X]))
         (\<lambda>vs. Inr (case find (no_better vs) vs of
                      None \<Rightarrow> init_search
                    | Some c \<Rightarrow> \<lparr>best_info_gain = fst c, best_split = Some (snd c)\<rparr>))"
proof -
  have "sorted_wrt scan_before (candidates X [0 ..< ncols X])"
    by (rule candidates_in_scan_order) (simp add: strict_sorted_iff)
  moreover have "set (candidates X [0 ..< ncols X])
       = {c. fst c < ncols X \<and> snd c \<in> (\<lambda>r. r ! fst c) ` set (rows X)}"
    by (simp add: set_candidates column_def)
  ultimately show ?thesis
    using find_best_split_first_max[of X y] by (simp add: update_best_def)
qed

text \<open>
  On X = [[2,2],[1,1]], y = [1,0] the candidates are scanned as (0, 1), (0, 2), (1, 1),
  (1, 2); (0, 1) and (1, 1) have the same, maximal gain; the search returns (0, 1).
\<close>

theorem first_maximal_candidate_wins_witness:
  "\<not> gain_gt
       (fst (Fin 1, \<lparr>feature_idx = 1, threshold = 1 :: int, left_y = [0], right_y = [1]\<rparr>))
       (best_info_gain (\<lparr>best_info_gain = Fin 1, best_split = None\<rparr> :: int search))
   \<and> update_best \<lparr>best_info_gain = Fin 1, best_split = None\<rparr>
         (Fin 1, \<lparr>feature_idx = 1, threshold = 1 :: int, left_y = [0], right_y = [1]\<rparr>)
       = \<lparr>best_info_gain = Fin 1, best_split = None\<rparr>
   \<and> candidates tie_X [0 ..< ncols tie_X] = [(0, 1), (0, 2), (1, 1), (1, 2)]
   \<and> sorted_wrt scan_before [(0, 1 :: int), (0, 2), (1, 1), (1, 2)]
   \<and> find_best_split tie_X tie_y =
       Inr \<lparr>best_info_gain = Fin pure_gain,
            best_split = Some \<lparr>feature_idx = 0, threshold = 1, left_y = [0], right_y = [1]\<rparr>\<rparr>"
proof -
  let ?c = "(Fin 1, \<lparr>feature_idx = 1, threshold = 1 :: int, left_y = [0], right_y = [1]\<rparr>)"
  let ?st = "\<lparr>best_info_gain = Fin 1, best_split = None\<rparr> :: int search"
  note all = first_maximal_candidate_wins[of ?c ?st tie_X tie_y]
  have no: "\<not> gain_gt (fst ?c) (best_info_gain ?st)"
    by simp
  with all have keep: "update_best ?st ?c = ?st"
    by (elim conjE) simp
  have order: "sorted_wrt scan_before [(0, 1 :: int), (0, 2), (1, 1), (1, 2)]"
    using all by (simp only: tie_candidates)
  have "find_best_split tie_X tie_y =
       Inr \<lparr>best_info_gain = Fin pure_gain,
            best_split = Some \<lparr>feature_idx = 0, threshold = 1, left_y = [0], right_y = [1]\<rparr>\<rparr>"
    using all[THEN conjunct2, THEN conjunct2, THEN conjunct2] pure_gain_pos
    by (simp add: tie_candidates tie_evaluate_low tie_evaluate_high no_better_def)
  with no keep order tie_candidates show ?thesis
    by (intro conjI)
qed

subsection \<open>A split is always recorded\<close>

lemma bincount_succeeds: "list_all (\<lambda>l. 0 \<le> l) y \<Longrightarrow> \<exists>cs. bincount y = Inr cs"
  by (auto simp: bincount_def list_all_iff list_ex_iff)

lemma fsum_Fin: "fsum (map Fin xs) = Fin (sum_list xs)"
  by (induction xs) (simp_all add: fsum_def)

text \<open>
  A term of the entropy is finite: the frequency is not negative, so that the logarithm
  is taken of a positive number.
\<close>

lemma entropy_term_finite:
  assumes "0 < n"
  shows "fmul (fdiv (real c) (real n)) (flog2 (fadd (fdiv (real c) (real n)) (Fin eps)))
       = Fin (real c / real n * log 2 (real c / real n + eps))"
proof -
  from assms have "fdiv (real c) (real n) = Fin (real c / real n)"
    by (simp add: fdiv_def)
  moreover have "0 < real c / real n + eps"
    by (rule pos_plus_eps) simp
  ultimately show ?thesis by simp
qed

lemma entropy_value:
  assumes "y \<noteq> []" and "bincount y = Inr cs"
  shows "entropy y =
     Inr (Fin (- sum_list (map (\<lambda>c. real c / real (length y)
                                    * log 2 (real c / real (length y) + eps)) cs)))"
proof -
  from assms(1) have n: "0 < length y" by simp
  have "map (\<lambda>p. fmul p (flog2 (fadd p (Fin eps)))) (class_probs cs (length y))
      = map Fin (map (\<lambda>c. real c / real (length y)
                            * log 2 (real c / real (length y) + eps)) cs)"
    by (simp add: class_probs_def comp_def entropy_term_finite[OF n])
  then show ?thesis
    unfolding entropy_def assms(2) err_bind_Inr by (simp only: fsum_Fin fneg.simps)
qed

lemma entropy_finite: "list_all (\<lambda>l. 0 \<le> l) y \<Longrightarrow> \<exists>h. entropy y = Inr (Fin h)"
proof (cases "y = []")
  case True
  then show ?thesis by (simp add: entropy_Nil)
next
  case False
  assume "list_all (\<lambda>l. 0 \<le> l) y"
  then obtain cs where "bincount y = Inr cs"
    using bincount_succeeds by auto
  from entropy_value[OF False this] show ?thesis by auto
qed

lemma mask_select_succeeds:
  "length m = length y \<Longrightarrow> \<exists>ys. mask_select y m = Inr ys \<and> set ys \<subseteq> set y"
  by (auto simp: mask_select_def dest: set_zip_leftD)

lemma evaluate_split_succeeds:
  assumes "y \<noteq> []" "length y = length (rows X)" "list_all (\<lambda>l. 0 \<le> l) y"
  shows "\<exists>g sp. evaluate_split X y j t = Inr (Fin g, sp)"
proof -
  let ?m = "map (\<lambda>v. v \<le> t) (column X j)"
  have len: "length ?m = length y" "length (map Not ?m) = length y"
    using assms(2) by (simp_all add: column_def)
  obtain ly where ly: "mask_select y ?m = Inr ly" "set ly \<subseteq> set y"
    using mask_select_succeeds[OF len(1)] by blast
  obtain ry where ry: "mask_select y (map Not ?m) = Inr ry" "set ry \<subseteq> set y"
    using mask_select_succeeds[OF len(2)] by blast
  from assms(3) ly(2) ry(2) have "list_all (\<lambda>l. 0 \<le> l) ly" "list_all (\<lambda>l. 0 \<le> l) ry"
    by (auto simp: list_all_iff)
  then obtain hl hr where "entropy ly = Inr (Fin hl)" "entropy ry = Inr (Fin hr)"
    using entropy_finite[of ly] entropy_finite[of ry] by auto
  moreover obtain hp where "entropy y = Inr (Fin hp)"
    using entropy_finite[OF assms(3)] by auto
  ultimately show ?thesis using ly(1) ry(1) assms(1)
    by (simp add: evaluate_split_def information_gain_def fsub_def Let_def)
qed

lemma collect_succeeds:
  "(\<And>c. c \<in> set cs \<Longrightarrow> \<exists>v. f c = Inr v) \<Longrightarrow> \<exists>vs. collect f cs = Inr vs \<and> length vs = length cs"
proof (induction cs)
  case Nil
  show ?case by simp
next
  case (Cons c cs)
  then obtain v vs where "f c = Inr v" "collect f cs = Inr vs" "length vs = length cs"
    by (meson list.set_intros)
  then show ?case by simp
qed

lemma collect_Inr_set:
  "collect f cs = Inr vs \<Longrightarrow> v \<in> set vs \<Longrightarrow> \<exists>c\<in>set cs. f c = Inr v"
proof (induction cs arbitrary: vs)
  case Nil
  then show ?case by simp
next
  case (Cons c cs)
  from Cons.prems(1) obtain w ws where w: "f c = Inr w" "collect f cs = Inr ws" "vs = w # ws"
    by (auto simp: err_bind_eq_Inr)
  show ?case
  proof (cases "v = w")
    case True
    with w show ?thesis by simp
  next
    case False
    with Cons.prems(2) w have "v \<in> set ws" by simp
    with Cons.IH[OF w(2)] show ?thesis by auto
  qed
qed

lemma unique_eq_Nil: "unique xs = [] \<longleftrightarrow> xs = []"
  by (metis unique_def set_empty set_remdups set_sort)

lemma update_best_init:
  "update_best init_search (Fin g, sp) = \<lparr>best_info_gain = Fin g, best_split = Some sp\<rparr>"
  by (simp add: update_best_def init_search_def)

text \<open>
  C10: for a sample subset with at least one row and one feature, one label per row and
  no negative label, every candidate has a finite gain (neither NaN nor infinite, thanks
  to the constant added inside the logarithm), the gain of the first threshold of feature
  0 replaces the initial minus infinity, and the search ends with a recorded split and a
  finite best gain; so the branch of the builder for \<^verbatim>\<open>best_split is None\<close> is never
  taken on such a subset.
\<close>

theorem split_is_always_recorded:
  assumes "rows X \<noteq> []" and "0 < ncols X" and "length y = length (rows X)"
    and "list_all (\<lambda>l. 0 \<le> l) y"
  shows "\<exists>t ts g0 sp0 g sp.
           unique (column X 0) = t # ts
         \<and> evaluate_split X y 0 t = Inr (Fin g0, sp0)
         \<and> gain_gt (Fin g0) (best_info_gain init_search)
         \<and> try_threshold X y 0 t init_search =
             Inr \<lparr>best_info_gain = Fin g0, best_split = Some sp0\<rparr>
         \<and> find_best_split X y = Inr \<lparr>best_info_gain = Fin g, best_split = Some sp\<rparr>"
proof -
  from assms(1,3) have y: "y \<noteq> []" by auto
  from assms(1) have "unique (column X 0) \<noteq> []"
    by (simp add: unique_eq_Nil column_def)
  then obtain t ts where t: "unique (column X 0) = t # ts"
    by (cases "unique (column X 0)") auto
  obtain g0 sp0 where v: "evaluate_split X y 0 t = Inr (Fin g0, sp0)"
    using evaluate_split_succeeds[OF y assms(3,4)] by blast
  have gt: "gain_gt (Fin g0) (best_info_gain init_search)"
    by (simp add: init_gain)
  from v have first: "try_threshold X y 0 t init_search =
      Inr \<lparr>best_info_gain = Fin g0, best_split = Some sp0\<rparr>"
    by (simp add: try_threshold_def update_best_init)
  let ?cs = "candidates X [0 ..< ncols X]"
  let ?ev = "\<lambda>c. evaluate_split X y (fst c) (snd c)"
  from assms(2) have "[0 ..< ncols X] = 0 # [1 ..< ncols X]"
    by (simp add: upt_rec)
  with t have cs: "?cs \<noteq> []"
    by (simp add: candidates_def)
  have ev: "\<exists>v. ?ev c = Inr v" for c
    using evaluate_split_succeeds[OF y assms(3,4), of "fst c" "snd c"] by auto
  obtain vs where vs: "collect ?ev ?cs = Inr vs" "length vs = length ?cs"
    using collect_succeeds[of ?cs ?ev] ev by blast
  have fin: "\<exists>g. fst v = Fin g" if "v \<in> set vs" for v
  proof -
    from collect_Inr_set[OF vs(1) that] obtain c where "?ev c = Inr v" by auto
    with evaluate_split_succeeds[OF y assms(3,4), of "fst c" "snd c"] show ?thesis by auto
  qed
  from vs(2) cs obtain v0 where v0: "v0 \<in> set vs"
    by (cases vs) auto
  from exists_maximal_above[OF v0] obtain m where m: "m \<in> set vs"
    "\<forall>c'\<in>set vs. \<not> gain_gt (fst c') (fst m)"
    by auto
  from fin[OF m(1)] m(2) have "no_better vs m"
    by (auto simp: no_better_def list_all_iff)
  with m(1) have "find (no_better vs) vs \<noteq> None"
    by (rule find_not_None)
  then obtain c where c: "find (no_better vs) vs = Some c" by auto
  then have "c \<in> set vs" by (auto simp: find_Some_iff)
  from fin[OF this] obtain g where g: "fst c = Fin g" by auto
  from vs(1) c g have "find_best_split X y =
      Inr \<lparr>best_info_gain = Fin g, best_split = Some (snd c)\<rparr>"
    by (simp add: find_best_split_first_max)
  with t v gt first show ?thesis by (intro exI conjI)
qed

text \<open>
  On X = [[1],[2]], y = [0,2] no sample has label 1: its frequency is 0, and the logarithm
  is taken of \<open>1e-9\<close>.
\<close>

theorem split_is_always_recorded_witness:
  "rows offset_X \<noteq> [] \<and> 0 < ncols offset_X \<and> length offset_y = length (rows offset_X)
   \<and> list_all (\<lambda>l. 0 \<le> l) offset_y
   \<and> (\<exists>t ts g0 sp0 g sp.
           unique (column offset_X 0) = t # ts
         \<and> evaluate_split offset_X offset_y 0 t = Inr (Fin g0, sp0)
         \<and> gain_gt (Fin g0) (best_info_gain init_search)
         \<and> try_threshold offset_X offset_y 0 t init_search =
             Inr \<lparr>best_info_gain = Fin g0, best_split = Some sp0\<rparr>
         \<and> find_best_split offset_X offset_y =
             Inr \<lparr>best_info_gain = Fin g, best_split = Some sp\<rparr>)"
proof -
  have h: "rows offset_X \<noteq> []" "0 < ncols offset_X"
    "length offset_y = length (rows offset_X)" "list_all (\<lambda>l. 0 \<le> l) offset_y"
    by (simp_all add: offset_X_def offset_y_def)
  from split_is_always_recorded[OF h] h show ?thesis
    by (intro conjI)
qed

subsection \<open>Prediction follows the tree\<close>

lemma walk_route: "features_below (length x) t \<Longrightarrow> walk x t = Inr (route t x)"
  by (induction t) auto

lemma collect_map: "list_all (\<lambda>x. f x = Inr (g x)) xs \<Longrightarrow> collect f xs = Inr (map g xs)"
  by (induction xs) auto

lemma evaluate_split_fields:
  "evaluate_split X y j t = Inr v \<Longrightarrow> feature_idx (snd v) = j \<and> threshold (snd v) = t"
  by (auto simp: evaluate_split_def Let_def err_bind_eq_Inr)

lemma find_Some_set: "find P xs = Some x \<Longrightarrow> x \<in> set xs"
  by (auto simp: find_Some_iff)

lemma best_split_feature:
  assumes "find_best_split X y = Inr st" and "best_split st = Some sp"
  shows "feature_idx sp < ncols X"
proof -
  let ?cs = "candidates X [0 ..< ncols X]"
  from assms(1) obtain vs where vs:
    "collect (\<lambda>c. evaluate_split X y (fst c) (snd c)) ?cs = Inr vs"
    "st = (case find (no_better vs) vs of None \<Rightarrow> init_search
           | Some c \<Rightarrow> \<lparr>best_info_gain = fst c, best_split = Some (snd c)\<rparr>)"
    by (auto simp: find_best_split_first_max err_bind_eq_Inr)
  from vs(2) assms(2) obtain v where v: "find (no_better vs) vs = Some v" "sp = snd v"
    by (cases "find (no_better vs) vs") (auto simp: init_search_def)
  from v(1) have "v \<in> set vs" by (rule find_Some_set)
  with vs(1) obtain c where c: "c \<in> set ?cs" "evaluate_split X y (fst c) (snd c) = Inr v"
    using collect_Inr_set by fastforce
  from c(1) have "fst c < ncols X"
    using candidates_feature by fastforce
  with evaluate_split_fields[OF c(2)] v(2) show ?thesis by simp
qed

lemma take_rows_ncols: "take_rows X idx = Inr X' \<Longrightarrow> ncols X' = ncols X"
  by (auto simp: take_rows_def Let_def split: if_splits)

lemma majority_leaf_Leaf: "majority_leaf y = Inr t \<Longrightarrow> \<exists>c. t = Leaf c"
  by (auto simp: majority_leaf_def err_bind_eq_Inr)

lemma build_tree_features:
  "build_tree fuel md X y depth = Some (Inr t) \<Longrightarrow> features_below (ncols X) t"
proof (induction fuel arbitrary: X y depth t)
  case 0
  then show ?case by simp
next
  case (Suc fuel)
  show ?case
  proof (cases "length (unique y) = 1")
    case True
    with Suc.prems show ?thesis by (auto simp: Let_def)
  next
    case pure: False
    show ?thesis
    proof (cases "length (rows X) = 0 \<or> depth_reached md depth")
      case True
      with pure Suc.prems have "majority_leaf y = Inr t" by (simp add: Let_def)
      then show ?thesis using majority_leaf_Leaf by fastforce
    next
      case False
      show ?thesis
      proof (cases "find_best_split X y")
        case (Inl e)
        with pure False Suc.prems show ?thesis by (simp add: Let_def)
      next
        case (Inr st)
        show ?thesis
        proof (cases "best_split st")
          case None
          with pure False Inr Suc.prems have "majority_leaf y = Inr t" by (simp add: Let_def)
          then show ?thesis using majority_leaf_Leaf by fastforce
        next
          case (Some sp)
          from pure False Inr Some Suc.prems obtain XL XR lt rt where parts:
            "take_rows X (left_y sp) = Inr XL"
            "build_tree fuel md XL (left_y sp) (depth + 1) = Some (Inr lt)"
            "take_rows X (right_y sp) = Inr XR"
            "build_tree fuel md XR (right_y sp) (depth + 1) = Some (Inr rt)"
            "t = Internal (feature_idx sp) (threshold sp) lt rt"
            by (auto simp: Let_def split: sum.splits option.splits)
          from Suc.IH[OF parts(2)] Suc.IH[OF parts(4)]
          have "features_below (ncols X) lt" "features_below (ncols X) rt"
            by (simp_all add: take_rows_ncols[OF parts(1)] take_rows_ncols[OF parts(3)])
          with best_split_feature[OF Inr Some] parts(5) show ?thesis by simp
        qed
      qed
    qed
  qed
qed

text \<open>
  C7: for a model returned by \<^verbatim>\<open>fit\<close> and a batch of K rows that have as many columns as
  the training matrix, \<^verbatim>\<open>predict\<close> returns K labels in the order of the rows, the label of
  a row being the one reached by the traversal from the root: at a leaf its label, at an
  inner node left when the row's value at the feature index is at most the threshold,
  right otherwise.
\<close>

theorem predict_follows_the_tree:
  assumes "fit fuel m0 X y = Some (Inr m)"
    and "list_all (\<lambda>x. length x = ncols X) (rows Q)"
  shows "\<exists>t. tree m = Some t
           \<and> predict m Q = Inr (map (route t) (rows Q))
           \<and> length (map (route t) (rows Q)) = length (rows Q)"
proof -
  from assms(1) obtain t where t: "build_tree fuel (max_depth m0) X y 0 = Some (Inr t)"
    "m = m0\<lparr>tree := Some t\<rparr>"
    by (auto simp: fit_def split: option.splits sum.splits)
  from build_tree_features[OF t(1)] have fb: "features_below (ncols X) t" .
  have "list_all (\<lambda>x. predict_single x (tree m) = Inr (route t x)) (rows Q)"
    using assms(2) fb t(2) by (auto simp: list_all_iff predict_single_def walk_route)
  then have "predict m Q = Inr (map (route t) (rows Q))"
    unfolding predict_def by (rule collect_map)
  with t(2) show ?thesis by simp
qed

theorem predict_follows_the_tree_witness:
  "fit (Suc (Suc 0)) (init None) example_X example_y =
     Some (Inr \<lparr>max_depth = None, tree = Some (Internal 0 2 (Leaf 0) (Leaf 1))\<rparr>)
   \<and> list_all (\<lambda>x. length x = ncols example_X) (rows \<lparr>rows = [[1], [4 :: int]], ncols = 1\<rparr>)
   \<and> predict \<lparr>max_depth = None, tree = Some (Internal 0 (2 :: int) (Leaf 0) (Leaf 1))\<rparr>
        \<lparr>rows = [[1], [4]], ncols = 1\<rparr> = Inr [0, 1]"
proof -
  have "\<not> depth_reached None 0"
    by (simp add: depth_reached_def)
  then have "build_tree (Suc (Suc 0)) None example_X example_y 0 =
      Some (Inr (Internal 0 2 (Leaf 0) (Leaf 1)))"
    by (rule example_tree)
  then have f: "fit (Suc (Suc 0)) (init None) example_X example_y =
     Some (Inr \<lparr>max_depth = None, tree = Some (Internal 0 2 (Leaf 0) (Leaf 1))\<rparr>)"
    by (simp add: fit_def init_def del: build_tree.simps)
  have q: "list_all (\<lambda>x. length x = ncols example_X) (rows \<lparr>rows = [[1], [4 :: int]], ncols = 1\<rparr>)"
    by (simp add: example_X_def)
  from predict_follows_the_tree[OF f q] f q show ?thesis
    by simp
qed

subsection \<open>The majority leaf\<close>

lemma bincount_nth:
  assumes "list_all (\<lambda>l. 0 \<le> l) y" and "y \<noteq> []"
  shows "\<exists>cs. bincount y = Inr cs \<and> length cs = nat (Max (set y)) + 1
            \<and> (\<forall>k<length cs. cs ! k = count_list y (int k))"
proof -
  from assms(1) have "\<not> list_ex (\<lambda>l. l < 0) y"
    by (auto simp: list_all_iff list_ex_iff)
  with assms(2) have "bincount y = Inr (map (\<lambda>k. count_list y (int k)) [0 ..< nat (Max (set y)) + 1])"
    by (simp add: bincount_def)
  moreover have "\<forall>k<nat (Max (set y)) + 1. map (\<lambda>k. count_list y (int k)) [0 ..< nat (Max (set y)) + 1] ! k = count_list y (int k)"
    by (simp del: upt_Suc)
  ultimately show ?thesis
    by (intro exI[of _ "map (\<lambda>k. count_list y (int k)) [0 ..< nat (Max (set y)) + 1]"]) (simp del: upt_Suc)
qed

lemma takeWhile_stops: "x \<in> set xs \<Longrightarrow> \<not> P x \<Longrightarrow> length (takeWhile P xs) < length xs"
  by (induction xs) auto

lemma argmax_first_max:
  assumes "cs \<noteq> []"
  shows "\<exists>k. argmax cs = Inr k \<and> k < length cs \<and> cs ! k = Max (set cs)
           \<and> (\<forall>i<k. cs ! i \<noteq> Max (set cs))"
proof -
  let ?P = "\<lambda>c. c \<noteq> Max (set cs)"
  let ?k = "length (takeWhile ?P cs)"
  from assms have "Max (set cs) \<in> set cs" by (intro Max_in) auto
  then have lt: "?k < length cs"
    by (rule takeWhile_stops) simp
  then have "\<not> ?P (cs ! ?k)" by (rule nth_length_takeWhile)
  moreover have "\<forall>i<?k. ?P (cs ! i)"
  proof (intro allI impI)
    fix i assume i: "i < ?k"
    then have "takeWhile ?P cs ! i \<in> set (takeWhile ?P cs)" by (rule nth_mem)
    then have "?P (takeWhile ?P cs ! i)" by (auto dest: set_takeWhileD)
    with takeWhile_nth[OF i] show "?P (cs ! i)" by simp
  qed
  ultimately show ?thesis using assms lt by (simp add: argmax_def)
qed

lemma majority_leaf_is_majority:
  assumes nn: "list_all (\<lambda>l. 0 \<le> l) y" and ne: "y \<noteq> []"
  shows "\<exists>c. majority_leaf y = Inr (Leaf c) \<and> is_majority y c"
proof -
  obtain cs where cs: "bincount y = Inr cs" "length cs = nat (Max (set y)) + 1"
    "\<forall>k<length cs. cs ! k = count_list y (int k)"
    using bincount_nth[OF nn ne] by auto
  from cs(2) have "cs \<noteq> []" by auto
  then obtain k where k: "argmax cs = Inr k" "k < length cs" "cs ! k = Max (set cs)"
    "\<forall>i<k. cs ! i \<noteq> Max (set cs)"
    using argmax_first_max[of cs] by auto
  have idx: "nat l < length cs \<and> cs ! nat l = count_list y l" if "l \<in> set y" for l
  proof -
    from that nn have "0 \<le> l" by (simp add: list_all_iff)
    moreover from that have "l \<le> Max (set y)" by simp
    ultimately show ?thesis using cs(2,3) by auto
  qed
  have le: "count_list y l \<le> count_list y (int k)" if "l \<in> set y" for l
  proof -
    from idx[OF that] have "nat l < length cs" by simp
    then have "cs ! nat l \<in> set cs" by (rule nth_mem)
    then have "cs ! nat l \<le> Max (set cs)" by simp
    with idx[OF that] k(2,3) cs(3) show ?thesis by simp
  qed
  have mem: "int k \<in> set y"
  proof -
    from ne obtain l where l: "l \<in> set y" by (cases y) auto
    then have "0 < count_list y l" using count_list_0_iff[of y l] by auto
    with le[OF l] have "0 < count_list y (int k)" by simp
    then show ?thesis using count_list_0_iff[of y "int k"] by auto
  qed
  have first: "int k \<le> l" if "l \<in> set y" "count_list y l = count_list y (int k)" for l
  proof (rule ccontr)
    assume "\<not> int k \<le> l"
    moreover from that(1) nn have "0 \<le> l" by (simp add: list_all_iff)
    ultimately have "nat l < k" by simp
    with k(4) have "cs ! nat l \<noteq> Max (set cs)" by simp
    with idx[OF that(1)] that(2) k(2,3) cs(3) show False by simp
  qed
  from cs(1) k(1) have "majority_leaf y = Inr (Leaf (int k))"
    by (simp add: majority_leaf_def)
  moreover have "is_majority y (int k)"
    using mem le first by (fastforce simp: is_majority_def list_all_iff le_less)
  ultimately show ?thesis by (intro exI[of _ "int k"] conjI)
qed

lemma unique_singleton:
  assumes "length (unique y) = 1"
  shows "set y = {unique y ! 0}"
proof -
  from assms obtain c where c: "unique y = [c]"
    by (cases "unique y") auto
  have "set (unique y) = set y" by (simp add: unique_def)
  with c show ?thesis by simp
qed

lemma pure_is_majority:
  assumes "length (unique y) = 1"
  shows "is_majority y (unique y ! 0)"
  using unique_singleton[OF assms] by (simp add: is_majority_def list_all_iff)

lemma predict_leaf:
  "predict \<lparr>max_depth = md, tree = Some (Leaf c)\<rparr> Q = Inr (replicate (length (rows Q)) c)"
proof -
  have "collect (\<lambda>x. predict_single x (Some (Leaf c))) xs = Inr (replicate (length xs) c)"
    for xs :: "'a list list"
    by (induction xs) (simp_all add: predict_single_def)
  then show ?thesis by (simp add: predict_def)
qed

text \<open>
  Where the depth test is reached with a non-zero maximum depth, the builder does return
  the majority leaf, and every prediction with that leaf is its label.
\<close>

lemma depth_limit_gives_majority_leaf:
  assumes "y \<noteq> []" and "list_all (\<lambda>l. 0 \<le> l) y" and "depth_reached md depth"
  shows "\<exists>c. build_tree (Suc fuel) md X y depth = Some (Inr (Leaf c))
           \<and> is_majority y c
           \<and> predict \<lparr>max_depth = md, tree = Some (Leaf c)\<rparr> Q
               = Inr (replicate (length (rows Q)) c)"
proof (cases "length (unique y) = 1")
  case True
  then have bt: "build_tree (Suc fuel) md X y depth = Some (Inr (Leaf (unique y ! 0)))"
    by (simp add: Let_def)
  show ?thesis
    by (intro exI[of _ "unique y ! 0"] conjI bt pure_is_majority[OF True] predict_leaf)
next
  case False
  obtain c where c: "majority_leaf y = (Inr (Leaf c) :: error + 'a tree)" "is_majority y c"
    using majority_leaf_is_majority[OF assms(2,1)] by auto
  from False assms(3) have "build_tree (Suc fuel) md X y depth = Some (majority_leaf y)"
    by (simp add: Let_def)
  with c(1) have bt: "build_tree (Suc fuel) md X y depth = Some (Inr (Leaf c))"
    by simp
  show ?thesis
    by (intro exI[of _ c] conjI bt c(2) predict_leaf)
qed

subsection \<open>A maximum depth of 0\<close>

lemma skewed_gain_pos: "0 < skewed_gain"
  using log_one_eps_pos log_third_eps_neg log_two_thirds_eps_neg
  by (simp add: skewed_gain_def)

lemma skewed_threshold_1:
  "\<exists>g. evaluate_split skewed_X skewed_y 0 1 =
         Inr (Fin g, \<lparr>feature_idx = 0, threshold = 1, left_y = [0], right_y = [0, 1]\<rparr>)
       \<and> g < skewed_gain"
  using log_one_eps_pos log_half_eps_neg
  by (simp add: evaluate_defs skewed_X_def skewed_y_def skewed_gain_def
      entropy_001 entropy_0 entropy_01)

lemma skewed_threshold_2:
  "evaluate_split skewed_X skewed_y 0 2 =
     Inr (Fin skewed_gain, \<lparr>feature_idx = 0, threshold = 2, left_y = [0, 0], right_y = [1]\<rparr>)"
  by (simp add: evaluate_defs skewed_X_def skewed_y_def skewed_gain_def
      entropy_001 entropy_00 entropy_1)

lemma skewed_threshold_3:
  "evaluate_split skewed_X skewed_y 0 3 =
     Inr (Fin 0, \<lparr>feature_idx = 0, threshold = 3, left_y = [0, 0, 1], right_y = []\<rparr>)"
  by (simp add: evaluate_defs skewed_X_def skewed_y_def entropy_001 entropy_Nil)

lemma skewed_split:
  "find_best_split skewed_X skewed_y =
     Inr \<lparr>best_info_gain = Fin skewed_gain,
          best_split = Some \<lparr>feature_idx = 0, threshold = 2, left_y = [0, 0], right_y = [1]\<rparr>\<rparr>"
proof -
  obtain g1 where g1:
    "evaluate_split skewed_X skewed_y 0 1 =
       Inr (Fin g1, \<lparr>feature_idx = 0, threshold = 1, left_y = [0], right_y = [0, 1]\<rparr>)"
    "g1 < skewed_gain"
    using skewed_threshold_1 by auto
  have n: "[0 ..< ncols skewed_X] = [0]"
    by (simp add: skewed_X_def)
  have t: "unique (column skewed_X 0) = [1, 2, 3]"
    by (simp add: skewed_X_def column_def unique_def)
  show ?thesis
    using g1(2) skewed_gain_pos
    by (simp add: find_best_split_def n t try_threshold_def g1(1) skewed_threshold_2
        skewed_threshold_3 update_best_def init_search_def)
qed

lemma skewed_tree:
  assumes "\<not> depth_reached md 0"
  shows "build_tree (Suc (Suc n)) md skewed_X skewed_y 0 =
           Some (Inr (Internal 0 2 (Leaf 0) (Leaf 1)))"
proof -
  have u: "unique skewed_y = [0, 1]"
    by (simp add: skewed_y_def unique_def)
  have l: "take_rows skewed_X [0, 0] = Inr \<lparr>rows = [[1], [1]], ncols = 1\<rparr>"
    by (simp add: take_rows_def skewed_X_def)
  have r: "take_rows skewed_X [1] = Inr \<lparr>rows = [[2]], ncols = 1\<rparr>"
    by (simp add: take_rows_def skewed_X_def)
  have ul: "unique [0, 0 :: int] = [0]"
    by (simp add: unique_def)
  have ur: "unique [1 :: int] = [1]"
    by (simp add: unique_def)
  have k: "length (rows skewed_X) = 3"
    by (simp add: skewed_X_def)
  show ?thesis
    using assms by (simp add: Let_def u k skewed_split l r ul ur)
qed

lemma zero_depth_is_unset:
  "build_tree fuel (Some 0) X y depth = build_tree fuel None X y depth"
proof (induction fuel arbitrary: X y depth)
  case 0
  show ?case by simp
next
  case (Suc fuel)
  have d: "depth_reached (Some 0) depth = depth_reached None depth"
    by (simp add: depth_reached_def)
  show ?case
    by (simp only: build_tree.simps d Suc.IH)
qed

text \<open>
  C9, evaluated with maximum depth 0, the setting for which the depth test of the builder
  (root at depth 0) would stop at the root: the builder treats 0 as unset at every call.
  On X = [[1],[2],[3]], y = [0,0,1], whose majority label is 0 and not 1, fitting with
  maximum depth 0 gives the tree that splits the root at threshold 2, and the row [3] is
  predicted as 1.
\<close>

theorem max_depth_zero_is_ignored:
  "build_tree fuel (Some 0) X y depth = build_tree fuel None X y depth
   \<and> fit (Suc (Suc 0)) (init (Some 0)) skewed_X skewed_y =
     Some (Inr \<lparr>max_depth = Some 0, tree = Some (Internal 0 2 (Leaf 0) (Leaf 1))\<rparr>)
   \<and> predict \<lparr>max_depth = Some 0, tree = Some (Internal 0 (2 :: int) (Leaf 0) (Leaf 1))\<rparr>
        \<lparr>rows = [[3]], ncols = 1\<rparr> = Inr [1]
   \<and> is_majority skewed_y 0 \<and> \<not> is_majority skewed_y 1"
proof -
  have d: "\<not> depth_reached (Some 0) 0"
    by (simp add: depth_reached_def)
  have "build_tree (Suc (Suc 0)) (Some 0) skewed_X skewed_y 0 =
      Some (Inr (Internal 0 2 (Leaf 0) (Leaf 1)))"
    by (rule skewed_tree[OF d])
  then have "fit (Suc (Suc 0)) (init (Some 0)) skewed_X skewed_y =
     Some (Inr \<lparr>max_depth = Some 0, tree = Some (Internal 0 2 (Leaf 0) (Leaf 1))\<rparr>)"
    by (simp add: fit_def init_def del: build_tree.simps)
  moreover have "predict \<lparr>max_depth = Some 0, tree = Some (Internal 0 (2 :: int) (Leaf 0) (Leaf 1))\<rparr>
        \<lparr>rows = [[3]], ncols = 1\<rparr> = Inr [1]"
    by (simp add: predict_def predict_single_def)
  moreover have "is_majority skewed_y 0" "\<not> is_majority skewed_y 1"
    by (simp_all add: is_majority_def skewed_y_def)
  ultimately show ?thesis
    using zero_depth_is_unset[of fuel X y depth] by (intro conjI)
qed

subsection \<open>Labels used as row indices\<close>

lemma bincount_02: "bincount [0, 2] = Inr [1, 0, 1]" by code_simp
lemma bincount_2: "bincount [2] = Inr [0, 0, 1]" by code_simp

lemma entropy_02: "entropy [0, 2] = Inr (Fin (- log 2 (1 / 2 + eps)))"
  by (simp add: entropy_def bincount_02 entropy_defs)
lemma entropy_2: "entropy [2] = Inr (Fin (- log 2 (1 + eps)))"
  by (simp add: entropy_def bincount_2 entropy_defs)

lemma offset_threshold_1:
  "evaluate_split offset_X offset_y 0 1 =
     Inr (Fin pure_gain, \<lparr>feature_idx = 0, threshold = 1, left_y = [0], right_y = [2]\<rparr>)"
  by (simp add: evaluate_defs offset_X_def offset_y_def pure_gain_def
      entropy_02 entropy_0 entropy_2)

lemma offset_threshold_2:
  "evaluate_split offset_X offset_y 0 2 =
     Inr (Fin 0, \<lparr>feature_idx = 0, threshold = 2, left_y = [0, 2], right_y = []\<rparr>)"
  by (simp add: evaluate_defs offset_X_def offset_y_def entropy_02 entropy_Nil)

lemma offset_split:
  "find_best_split offset_X offset_y =
     Inr \<lparr>best_info_gain = Fin pure_gain,
          best_split = Some \<lparr>feature_idx = 0, threshold = 1, left_y = [0], right_y = [2]\<rparr>\<rparr>"
proof -
  have n: "[0 ..< ncols offset_X] = [0]"
    by (simp add: offset_X_def)
  have t: "unique (column offset_X 0) = [1, 2]"
    by (simp add: offset_X_def column_def unique_def)
  show ?thesis
    using pure_gain_pos
    by (simp add: find_best_split_def n t try_threshold_def offset_threshold_1
        offset_threshold_2 update_best_def init_search_def)
qed

text \<open>
  C1, evaluated: on the worked example the winning split is feature 0 at threshold 2; the
  left recursion receives the rows [[1],[1]] (rows 0 and 0 of X, the left labels used as
  row indices) where the rows with value at most 2 are [[1],[2]], and the right recursion
  receives [[2],[2]] where the remaining rows are [[3],[4]]. On X = [[1],[2]], y = [0,2]
  the right label 2 is no row index and fitting raises \<^verbatim>\<open>IndexError\<close>.
\<close>

theorem children_get_rows_indexed_by_labels:
  "find_best_split example_X example_y =
     Inr \<lparr>best_info_gain = Fin pure_gain,
          best_split = Some \<lparr>feature_idx = 0, threshold = 2,
                              left_y = [0, 0], right_y = [1, 1]\<rparr>\<rparr>
   \<and> take_rows example_X [0, 0] = Inr \<lparr>rows = [[1], [1]], ncols = 1\<rparr>
   \<and> rows_where example_X (map (\<lambda>v. v \<le> 2) (column example_X 0))
       = Inr \<lparr>rows = [[1], [2]], ncols = 1\<rparr>
   \<and> take_rows example_X [1, 1] = Inr \<lparr>rows = [[2], [2]], ncols = 1\<rparr>
   \<and> rows_where example_X (map (\<lambda>v. \<not> v \<le> 2) (column example_X 0))
       = Inr \<lparr>rows = [[3], [4]], ncols = 1\<rparr>
   \<and> fit (Suc (Suc n)) (init None) offset_X offset_y = Some (Inl IndexError)"
proof -
  have "take_rows example_X [0, 0] = Inr \<lparr>rows = [[1], [1]], ncols = 1\<rparr>"
    "take_rows example_X [1, 1] = Inr \<lparr>rows = [[2], [2]], ncols = 1\<rparr>"
    by (simp_all add: take_rows_def example_X_def)
  moreover have "rows_where example_X (map (\<lambda>v. v \<le> 2) (column example_X 0))
       = Inr \<lparr>rows = [[1], [2]], ncols = 1\<rparr>"
    "rows_where example_X (map (\<lambda>v. \<not> v \<le> 2) (column example_X 0))
       = Inr \<lparr>rows = [[3], [4]], ncols = 1\<rparr>"
    by (simp_all add: rows_where_def mask_select_def column_def example_X_def)
  moreover have "fit (Suc (Suc n)) (init None) offset_X offset_y = Some (Inl IndexError)"
  proof -
    have u: "unique offset_y = [0, 2]"
      by (simp add: offset_y_def unique_def)
    have l: "take_rows offset_X [0] = Inr \<lparr>rows = [[1]], ncols = 1\<rparr>"
      by (simp add: take_rows_def offset_X_def)
    have r: "take_rows offset_X [2] = Inl IndexError"
      by (simp add: take_rows_def offset_X_def)
    have ul: "unique [0 :: int] = [0]"
      by (simp add: unique_def)
    have k: "length (rows offset_X) = 2"
      by (simp add: offset_X_def)
    show ?thesis
      by (simp add: fit_def init_def Let_def u k depth_reached_def offset_split l r ul)
  qed
  ultimately show ?thesis
    using example_split by (intro conjI)
qed

subsection \<open>Bounds of the entropy\<close>

lemma bincount_valid:
  assumes "list_all (\<lambda>l. 0 \<le> l) y" and "y \<noteq> []"
  shows "bincount y = Inr (map (\<lambda>k. count_list y (int k)) [0 ..< nat (Max (set y)) + 1])"
proof -
  from assms(1) have "\<not> list_ex (\<lambda>l. l < 0) y"
    by (auto simp: list_all_iff list_ex_iff)
  with assms(2) show ?thesis
    by (simp add: bincount_def)
qed

text \<open>The entropy as a sum over the labels that occur.\<close>

lemma entropy_sum:
  assumes nn: "list_all (\<lambda>l. 0 \<le> l) y" and ne: "y \<noteq> []"
  shows "entropy y = Inr (Fin (- (\<Sum>l\<in>set y. freq y l * log 2 (freq y l + eps))))"
proof -
  let ?m = "nat (Max (set y)) + 1"
  let ?F = "\<lambda>l. freq y l * log 2 (freq y l + eps)"
  have "entropy y = Inr (Fin (- sum_list (map (\<lambda>k. ?F (int k)) [0 ..< ?m])))"
    unfolding entropy_value[OF ne bincount_valid[OF nn ne]]
    by (simp add: freq_def comp_def del: upt_Suc)
  also have "sum_list (map (\<lambda>k. ?F (int k)) [0 ..< ?m]) = (\<Sum>k\<in>{0 ..< ?m}. ?F (int k))"
    by (simp add: interv_sum_list_conv_sum_set_nat del: upt_Suc)
  also have "(\<Sum>k\<in>{0 ..< ?m}. ?F (int k)) = sum ?F (int ` {0 ..< ?m})"
    by (simp add: sum.reindex inj_on_def)
  also have "sum ?F (int ` {0 ..< ?m}) = sum ?F (set y)"
  proof (rule sum.mono_neutral_right)
    show "finite (int ` {0 ..< ?m})" by simp
    show "set y \<subseteq> int ` {0 ..< ?m}"
    proof
      fix l assume l: "l \<in> set y"
      with nn have "0 \<le> l" by (simp add: list_all_iff)
      moreover from l have "l \<le> Max (set y)" by simp
      ultimately have "nat l \<in> {0 ..< ?m}" "l = int (nat l)" by auto
      then show "l \<in> int ` {0 ..< ?m}" by (rule rev_image_eqI)
    qed
    show "\<forall>l\<in>int ` {0 ..< ?m} - set y. ?F l = 0"
      by (simp add: freq_def)
  qed
  finally show ?thesis .
qed

lemma freq_pos: "l \<in> set y \<Longrightarrow> 0 < freq y l"
  using count_list_0_iff[of y l] by (cases y) (auto simp: freq_def)

lemma freq_le_one: "freq y l \<le> 1"
proof (cases "y = []")
  case True
  then show ?thesis by (simp add: freq_def)
next
  case False
  then show ?thesis using count_le_length[of y l] by (simp add: freq_def)
qed

lemma sum_freq: "y \<noteq> [] \<Longrightarrow> (\<Sum>l\<in>set y. freq y l) = 1"
proof -
  assume ne: "y \<noteq> []"
  have "(\<Sum>l\<in>set y. freq y l) = real (\<Sum>l\<in>set y. count_list y l) / real (length y)"
    by (simp add: freq_def sum_divide_distrib)
  also have "(\<Sum>l\<in>set y. count_list y l) = length y"
    by (rule sum_count_set) simp_all
  finally show ?thesis using ne by simp
qed

lemma entropy_term_lower:
  assumes "l \<in> set y"
  shows "freq y l * log 2 (freq y l + eps) \<le> freq y l * log 2 (1 + eps)"
proof -
  have "log 2 (freq y l + eps) \<le> log 2 (1 + eps)"
    using freq_pos[OF assms] freq_le_one[of y l] eps_pos by (intro log_mono) auto
  then show ?thesis
    using freq_pos[OF assms] by (intro mult_left_mono) auto
qed

lemma entropy_term_upper:
  assumes "0 < q" and "q \<le> 1" and "0 < K"
  shows "- (q * log 2 (q + eps)) \<le> (q * ln K + 1 / K - q) / ln 2 - q * log 2 (1 + eps)"
proof -
  have "q * (1 + eps) \<le> q + eps"
    using assms(2) eps_pos by (simp add: algebra_simps)
  then have "log 2 (q * (1 + eps)) \<le> log 2 (q + eps)"
    using assms(1) eps_pos by (intro log_mono) auto
  moreover have "log 2 (q * (1 + eps)) = log 2 q + log 2 (1 + eps)"
    using assms(1) eps_pos by (simp add: log_mult)
  ultimately have "q * (log 2 q + log 2 (1 + eps)) \<le> q * log 2 (q + eps)"
    using assms(1) by simp
  then have "- (q * log 2 (q + eps)) \<le> - (q * log 2 q) - q * log 2 (1 + eps)"
    by (simp add: algebra_simps)
  moreover have "- (q * log 2 q) \<le> (q * ln K + 1 / K - q) / ln 2"
  proof -
    have "- (q * log 2 q) = (- (q * ln q)) / ln 2"
      by (simp add: log_def)
    also have "\<dots> \<le> (q * ln K + 1 / K - q) / ln 2"
    proof (intro divide_right_mono)
      have "ln (1 / (K * q)) \<le> 1 / (K * q) - 1"
        using assms by (intro ln_le_minus_one) simp
      moreover have "ln (1 / (K * q)) = - ln K - ln q"
        using assms by (simp add: ln_div ln_mult)
      ultimately have "q * (- ln K - ln q) \<le> q * (1 / (K * q) - 1)"
        using assms(1) by (intro mult_left_mono) auto
      also have "q * (1 / (K * q) - 1) = 1 / K - q"
        using assms by (simp add: field_simps)
      finally show "- (q * ln q) \<le> q * ln K + 1 / K - q"
        by (simp add: algebra_simps)
      show "0 \<le> ln (2 :: real)" by simp
    qed
    finally show ?thesis .
  qed
  ultimately show ?thesis by linarith
qed

lemma entropy_bounds_sum:
  assumes ne: "y \<noteq> []"
  shows "- log 2 (1 + eps) \<le> - (\<Sum>l\<in>set y. freq y l * log 2 (freq y l + eps))"
    and "- (\<Sum>l\<in>set y. freq y l * log 2 (freq y l + eps))
           \<le> log 2 (real (card (set y))) - log 2 (1 + eps)"
proof -
  let ?S = "set y"
  let ?K = "real (card ?S)"
  from ne have K: "0 < ?K" by (simp add: card_gt_0_iff)
  have "(\<Sum>l\<in>?S. freq y l * log 2 (freq y l + eps)) \<le> (\<Sum>l\<in>?S. freq y l * log 2 (1 + eps))"
    by (intro sum_mono entropy_term_lower)
  also have "\<dots> = log 2 (1 + eps)"
    by (simp add: sum_distrib_right[symmetric] sum_freq[OF ne])
  finally show "- log 2 (1 + eps) \<le> - (\<Sum>l\<in>?S. freq y l * log 2 (freq y l + eps))"
    by simp
  have "- (\<Sum>l\<in>?S. freq y l * log 2 (freq y l + eps))
      = (\<Sum>l\<in>?S. - (freq y l * log 2 (freq y l + eps)))"
    by (simp add: sum_negf)
  also have "\<dots> \<le> (\<Sum>l\<in>?S. (freq y l * ln ?K + 1 / ?K - freq y l) / ln 2
                           - freq y l * log 2 (1 + eps))"
    by (intro sum_mono entropy_term_upper freq_pos freq_le_one K)
  also have "\<dots> = ((\<Sum>l\<in>?S. freq y l) * ln ?K + ?K * (1 / ?K) - (\<Sum>l\<in>?S. freq y l)) / ln 2
                  - (\<Sum>l\<in>?S. freq y l) * log 2 (1 + eps)"
    by (simp add: sum_divide_distrib[symmetric] sum.distrib sum_subtractf sum_distrib_right)
  also have "\<dots> = log 2 ?K - log 2 (1 + eps)"
    using K ne by (simp add: sum_freq[OF ne] log_def)
  finally show "- (\<Sum>l\<in>?S. freq y l * log 2 (freq y l + eps))
      \<le> log 2 ?K - log 2 (1 + eps)" .
qed

text \<open>The logarithm of \<open>1 + 1e-9\<close> lies between \<open>1e-9\<close> and \<open>2e-9\<close>.\<close>

lemma ln_2_bounds: "1 / 2 \<le> ln (2 :: real)" "ln (2 :: real) \<le> 5 / 6"
proof -
  have "ln (1 / 2 :: real) \<le> 1 / 2 - 1"
    by (rule ln_le_minus_one) simp
  then show "1 / 2 \<le> ln (2 :: real)"
    by (simp add: ln_div)
  have "ln (4 / 3 :: real) \<le> 4 / 3 - 1" "ln (3 / 2 :: real) \<le> 3 / 2 - 1"
    by (rule ln_le_minus_one, simp)+
  moreover have "ln (2 :: real) = ln (4 / 3) + ln (3 / 2)"
  proof -
    have "ln (4 / 3 * (3 / 2) :: real) = ln (4 / 3) + ln (3 / 2)"
      by (rule ln_mult_pos) simp_all
    moreover have "(4 / 3 * (3 / 2) :: real) = 2"
      by simp
    ultimately show ?thesis by simp
  qed
  ultimately show "ln (2 :: real) \<le> 5 / 6"
    by simp
qed

lemma log_one_eps_bounds: "eps \<le> log 2 (1 + eps)" "log 2 (1 + eps) \<le> 2 * eps"
proof -
  have ln2: "0 < ln (2 :: real)" by simp
  have "ln (1 + eps) \<le> eps"
    using eps_pos by (intro ln_add_one_self_le_self) simp
  also have "eps \<le> 2 * eps * ln 2"
    using ln_2_bounds(1) eps_pos by (simp add: field_simps)
  finally show "log 2 (1 + eps) \<le> 2 * eps"
    using ln2 by (simp add: log_def field_simps)
  have "eps * ln 2 \<le> eps * (5 / 6)"
    using ln_2_bounds(2) eps_pos by (intro mult_left_mono) auto
  also have "\<dots> \<le> eps - eps\<^sup>2"
    by (simp add: eps_def power2_eq_square)
  also have "\<dots> \<le> ln (1 + eps)"
    using eps_pos by (intro ln_one_plus_pos_lower_bound) (simp_all add: eps_def)
  finally show "eps \<le> log 2 (1 + eps)"
    using ln2 by (simp add: log_def field_simps)
qed

text \<open>
  C4 as stated fails: the entropy of the label set [0], which has a single distinct label,
  compares below 0: it is negative, and not 0.
\<close>

theorem entropy_counterexample:
  "(case entropy [0] of Inl e \<Rightarrow> False | Inr v \<Rightarrow> gain_gt (Fin 0) v)"
  using log_one_eps_pos by (simp add: entropy_0)

text \<open>
  C4, amended: for every non-empty label set without negative labels the entropy is a
  finite number, at least \<open>-2e-9\<close> and at most the binary logarithm of the number of
  distinct labels, from which it stays \<open>1e-9\<close> away; for a single distinct label it is
  therefore negative, between \<open>-2e-9\<close> and \<open>-1e-9\<close>.
\<close>

theorem entropy_bounds:
  assumes "y \<noteq> []" and "list_all (\<lambda>l. 0 \<le> l) y"
  shows "\<exists>h. entropy y = Inr (Fin h)
           \<and> - (2 * eps) \<le> h
           \<and> h \<le> log 2 (real (card (set y))) - eps
           \<and> (card (set y) = 1 \<longrightarrow> h \<le> - eps \<and> h < 0)"
proof -
  let ?h = "- (\<Sum>l\<in>set y. freq y l * log 2 (freq y l + eps))"
  have e: "entropy y = Inr (Fin ?h)"
    by (rule entropy_sum[OF assms(2,1)])
  have lo: "- (2 * eps) \<le> ?h"
    using entropy_bounds_sum(1)[OF assms(1)] log_one_eps_bounds(2) by linarith
  have hi: "?h \<le> log 2 (real (card (set y))) - eps"
    using entropy_bounds_sum(2)[OF assms(1)] log_one_eps_bounds(1) by linarith
  have one: "card (set y) = 1 \<longrightarrow> ?h \<le> - eps \<and> ?h < 0"
  proof
    assume "card (set y) = 1"
    with hi have "?h \<le> - eps" by simp
    with eps_pos show "?h \<le> - eps \<and> ?h < 0" by linarith
  qed
  show ?thesis
    by (intro exI[of _ ?h] conjI e lo hi one)
qed

theorem entropy_bounds_witness:
  "[0, 0] \<noteq> ([] :: int list) \<and> list_all (\<lambda>l. 0 \<le> l) [0, 0 :: int]
   \<and> card (set [0, 0 :: int]) = 1
   \<and> (\<exists>h. entropy [0, 0] = Inr (Fin h)
           \<and> - (2 * eps) \<le> h
           \<and> h \<le> log 2 (real (card (set [0, 0 :: int]))) - eps
           \<and> h \<le> - eps \<and> h < 0)"
proof -
  have h: "[0, 0] \<noteq> ([] :: int list)" "list_all (\<lambda>l. 0 \<le> l) [0, 0 :: int]"
    by simp_all
  have c: "card (set [0, 0 :: int]) = 1"
    by simp
  from entropy_bounds[OF h] obtain v where v: "entropy [0, 0] = Inr (Fin v)"
    "- (2 * eps) \<le> v" "v \<le> log 2 (real (card (set [0, 0 :: int]))) - eps"
    "card (set [0, 0 :: int]) = 1 \<longrightarrow> v \<le> - eps \<and> v < 0"
    by auto
  from v(4) c have "v \<le> - eps" "v < 0" by simp_all
  with v(1,2,3) have "\<exists>h. entropy [0, 0] = Inr (Fin h)
           \<and> - (2 * eps) \<le> h
           \<and> h \<le> log 2 (real (card (set [0, 0 :: int]))) - eps
           \<and> h \<le> - eps \<and> h < 0"
    by (intro exI[of _ v] conjI)
  with h c show ?thesis
    by (intro conjI)
qed

end
